theory Spec2Isabelle
  imports Main
begin

section \<open>Buffers, strings and the JavaScript operations the splitter uses\<close>

text \<open>
  A \<open>Buffer\<close> is a list of bytes and a JavaScript string a list of characters; both are
  \<open>char list\<close> here (an Isabelle \<open>char\<close> is one byte). \<open>toString\<close> stands for
  \<open>Buffer.toString('utf-8')\<close>, which is the identity on 7-bit bytes; \<open>toLowerCase\<close> and
  \<open>trim\<close> are the JavaScript methods on that range (letters A-Z; white space TAB, LF, VT,
  FF, CR, SP). A byte above 0x7F is carried through unchanged, so the model is exact on
  7-bit input, the range of every header the splitter's patterns look at.
\<close>

type_synonym buffer = "char list"

abbreviation LF :: char where "LF \<equiv> CHR 0x0A"
abbreviation CR :: char where "CR \<equiv> CHR 0x0D"
abbreviation TAB :: char where "TAB \<equiv> CHR 0x09"

datatype error = TypeError | RangeError

definition toString :: "buffer \<Rightarrow> string" where
  "toString buf = buf"

text \<open>\<open>buf.slice(start, end)\<close>: negative offsets count from the end, all are clamped.\<close>

definition slice :: "buffer \<Rightarrow> int \<Rightarrow> int \<Rightarrow> buffer" where
  "slice buf a b =
     (let n = int (length buf);
          lo = (if a < 0 then max (n + a) 0 else min a n);
          hi = (if b < 0 then max (n + b) 0 else min b n)
      in if hi \<le> lo then [] else take (nat (hi - lo)) (drop (nat lo) buf))"

text \<open>
  \<open>Buffer.concat(list, totalLength)\<close>: the chunks in order, cut or zero-filled to
  \<open>totalLength\<close>; a negative length is rejected with a RangeError.
\<close>

definition concatBuffers :: "buffer list \<Rightarrow> int \<Rightarrow> error + buffer" where
  "concatBuffers chunks totalLength =
     (if totalLength < 0 then Inl RangeError
      else Inr (take (nat totalLength) (concat chunks)
                @ replicate (nat totalLength - length (concat chunks)) (CHR 0x00)))"

text \<open>\<open>str.replace(/[\r\n]+$/, '')\<close>: the trailing run of CR and LF is removed.\<close>

definition stripTrailingBreaks :: "string \<Rightarrow> string" where
  "stripTrailingBreaks s = rev (dropWhile (\<lambda>c. c = CR \<or> c = LF) (rev s))"

text \<open>\<open>str.split(/\r?\n/)\<close>: a line ends at each LF, which takes a CR right before it along.\<close>

fun splitLines :: "string \<Rightarrow> string list" where
  "splitLines [] = [[]]"
| "splitLines (c # cs) =
     (if c = LF then [] # splitLines cs
      else if c = CR \<and> take 1 cs = [LF] then [] # splitLines (drop 1 cs)
      else (case splitLines cs of [] \<Rightarrow> [[c]] | l # ls \<Rightarrow> (c # l) # ls))"

text \<open>\<open>str.indexOf(c)\<close> is -1 when \<open>c\<close> does not occur.\<close>

definition indexOf :: "string \<Rightarrow> char \<Rightarrow> int" where
  "indexOf s c = (if c \<in> set s then int (length (takeWhile (\<lambda>x. x \<noteq> c) s)) else - 1)"

text \<open>\<open>str.substr(start, len)\<close>: a negative start counts from the end, a negative length is 0.\<close>

definition substr :: "string \<Rightarrow> int \<Rightarrow> int \<Rightarrow> string" where
  "substr s start len =
     (let n = int (length s);
          st = (if start < 0 then max (n + start) 0 else min start n);
          m = min (max len 0) (n - st)
      in take (nat m) (drop (nat st) s))"

definition lowerChar :: "char \<Rightarrow> char" where
  "lowerChar c =
     (case map_of (zip ''ABCDEFGHIJKLMNOPQRSTUVWXYZ'' ''abcdefghijklmnopqrstuvwxyz'') c of
        Some d \<Rightarrow> d
      | None \<Rightarrow> c)"

definition toLowerCase :: "string \<Rightarrow> string" where
  "toLowerCase s = map lowerChar s"

definition isWhiteSpace :: "char \<Rightarrow> bool" where
  "isWhiteSpace c = (c \<in> set [TAB, LF, CHR 0x0B, CHR 0x0C, CR, CHR '' ''])"

definition trim :: "string \<Rightarrow> string" where
  "trim s = rev (dropWhile isWhiteSpace (rev (dropWhile isWhiteSpace s)))"

section \<open>The header parser\<close>

record headerEntry =
  key :: string
  line :: string

text \<open>
  The array \<open>lines\<close> of \<open>parseHeaders\<close> holds strings first and is overwritten in place with
  \<open>{key, line}\<close> objects, so a slot is one or the other.
\<close>

datatype slot = Str string | Ent headerEntry

text \<open>\<open>(key || '').toLowerCase().trim()\<close>\<close>

definition normalizeHeader :: "string \<Rightarrow> string" where
  "normalizeHeader k = trim (toLowerCase (if k = [] then [] else k))"

text \<open>\<open>chr === ' ' || chr === '\t'\<close> for \<open>chr = lines[i].charAt(0)\<close>; \<open>charAt(0)\<close> of the empty
  string is the empty string.\<close>

definition isContinuation :: "string \<Rightarrow> bool" where
  "isContinuation l = (let chr = take 1 l in chr = '' '' \<or> chr = [TAB])"

text \<open>What \<open>+=\<close> reads from a slot: the string, or the text JavaScript gives an object.\<close>

fun slotText :: "slot \<Rightarrow> string" where
  "slotText (Str s) = s"
| "slotText (Ent e) = ''[object Object]''"

text \<open>\<open>lines.splice(i, 1)\<close>\<close>

definition splice :: "'a list \<Rightarrow> nat \<Rightarrow> 'a list" where
  "splice xs i = take i xs @ drop (Suc i) xs"

definition makeEntry :: "string \<Rightarrow> headerEntry" where
  "makeEntry cur = \<lparr>key = normalizeHeader (substr cur 0 (indexOf cur (CHR '':''))), line = cur\<rparr>"

text \<open>
  The loop \<open>for (let i = lines.length - 1; i >= 0; i--)\<close>: the first argument is \<open>i + 1\<close>.
  Calling \<open>charAt\<close> on a missing element or on an object is a TypeError.
\<close>

fun parseLoop :: "nat \<Rightarrow> slot list \<Rightarrow> error + slot list" where
  "parseLoop 0 lines = Inr lines"
| "parseLoop (Suc i) lines =
     (if i < length lines then
        (case lines ! i of
           Ent e \<Rightarrow> Inl TypeError
         | Str cur \<Rightarrow>
             if i \<noteq> 0 \<and> isContinuation cur
             then parseLoop i
                    (splice (lines[i - 1 := Str (slotText (lines ! (i - 1)) @ [LF] @ cur)]) i)
             else parseLoop i (lines[i := Ent (makeEntry cur)]))
      else Inl TypeError)"

definition parseHeaders :: "buffer \<Rightarrow> error + slot list" where
  "parseHeaders hdrs =
     (let lines = map Str (splitLines (stripTrailingBreaks (toString hdrs)))
      in parseLoop (length lines) lines)"

section \<open>The splitter\<close>

text \<open>
  What a consumer of the stream observes, in order: the \<open>headers\<close> event and the chunks
  pushed downstream. \<open>setImmediate\<close> queues a task; queued tasks run first in, first out.
\<close>

datatype event = HeadersEvent "slot list" | PushEvent buffer

datatype task = PushTask buffer | CallbackTask

record splitter =
  lastBytes :: buffer
  headersParsed :: bool
  headerBytes :: int
  headerChunks :: "buffer list option"
  rawHeaders :: "buffer option"
  headers :: "slot list option"
  bodySize :: int
  curLinePos :: "int option"
  emitted :: "event list"
  immediates :: "task list"

definition newSplitter :: splitter where
  "newSplitter =
     \<lparr>lastBytes = replicate 4 (CHR 0x00), headersParsed = False, headerBytes = 0,
      headerChunks = Some [], rawHeaders = None, headers = None, bodySize = 0,
      curLinePos = None, emitted = [], immediates = []\<rparr>"

subsection \<open>updateLastBytes\<close>

definition updateLastBytes :: "buffer \<Rightarrow> buffer \<Rightarrow> buffer" where
  "updateLastBytes lb data =
     (let lblen = length lb;
          nblen = min (length data) lblen;
          shifted = fold (\<lambda>i b. b[i := b ! (i + nblen)]) [0..<lblen - nblen] lb
      in fold (\<lambda>i b. b[lblen - i := data ! (length data - i)]) [1..<nblen + 1] shifted)"

subsection \<open>checkHeaders\<close>

text \<open>Byte \<open>i\<close> of the window followed by the chunk, read as the loop reads it.\<close>

definition byteAt :: "buffer \<Rightarrow> buffer \<Rightarrow> nat \<Rightarrow> char" where
  "byteAt lb data i = (if i < length lb then lb ! i else data ! (i - length lb))"

definition boundaryHere :: "buffer \<Rightarrow> buffer \<Rightarrow> nat \<Rightarrow> bool" where
  "boundaryHere lb data i =
     (byteAt lb data i = LF \<and> i \<noteq> 0 \<and>
      (let pr1 = byteAt lb data (i - 1);
           pr2 = (if i > 1 then Some (byteAt lb data (i - 2)) else None)
       in pr1 = LF \<or> (pr1 = CR \<and> pr2 = Some LF)))"

function scanFrom :: "buffer \<Rightarrow> buffer \<Rightarrow> nat \<Rightarrow> nat option" where
  "scanFrom lb data i =
     (if i < length lb + length data
      then (if boundaryHere lb data i then Some i else scanFrom lb data (i + 1))
      else None)"
  by pat_completeness auto
termination
  by (relation "measure (\<lambda>(lb, data, i). length lb + length data - i)") auto

declare scanFrom.simps [simp del]

definition checkHeaders :: "buffer \<Rightarrow> splitter \<Rightarrow> error + (bool \<times> splitter)" where
  "checkHeaders data s =
     (if headersParsed s then Inr (True, s)
      else
        let lblen = length (lastBytes s); s0 = s\<lparr>curLinePos := Some 0\<rparr> in
        case scanFrom (lastBytes s) data 0 of
          Some i \<Rightarrow>
            (let headerPos = int i - int lblen + 1;
                 newBytes = headerBytes s0 + headerPos
             in case headerChunks s0 of
                  None \<Rightarrow> Inl TypeError
                | Some chunks \<Rightarrow>
                    (case concatBuffers (chunks @ [slice data 0 headerPos]) newBytes of
                       Inl e \<Rightarrow> Inl e
                     | Inr raw \<Rightarrow>
                         (case parseHeaders raw of
                            Inl e \<Rightarrow> Inl e
                          | Inr hs \<Rightarrow>
                              (let s1 = s0\<lparr>headersParsed := True, headerBytes := newBytes,
                                            headerChunks := None, rawHeaders := Some raw,
                                            headers := Some hs,
                                            emitted := emitted s0 @ [HeadersEvent hs]\<rparr>
                               in if int (length data) - 1 > headerPos
                                  then
                                    (let chunk = slice data headerPos (int (length data))
                                     in Inr (False,
                                          s1\<lparr>bodySize := bodySize s1 + int (length chunk),
                                             immediates := immediates s1 @ [PushTask chunk]\<rparr>))
                                  else Inr (False, s1)))))
        | None \<Rightarrow>
            (case headerChunks s0 of
               None \<Rightarrow> Inl TypeError
             | Some chunks \<Rightarrow>
                 Inr (False,
                   s0\<lparr>headerBytes := headerBytes s0 + int (length data),
                      headerChunks := Some (chunks @ [data]),
                      lastBytes := updateLastBytes (lastBytes s0) data\<rparr>)))"

subsection \<open>The stream callbacks\<close>

definition transform :: "buffer \<Rightarrow> splitter \<Rightarrow> error + splitter" where
  "transform chunk s =
     (if chunk = [] then Inr s
      else case checkHeaders chunk s of
             Inl e \<Rightarrow> Inl e
           | Inr (headersFound, s1) \<Rightarrow>
               (let s2 = (if headersFound
                          then s1\<lparr>bodySize := bodySize s1 + int (length chunk),
                                  emitted := emitted s1 @ [PushEvent chunk]\<rparr>
                          else s1)
                in Inr (s2\<lparr>immediates := immediates s2 @ [CallbackTask]\<rparr>)))"

definition flush :: "splitter \<Rightarrow> error + splitter" where
  "flush s =
     (case headerChunks s of
        None \<Rightarrow> Inr s
      | Some chunks \<Rightarrow>
          (let newBytes = headerBytes s + 4
           in case concatBuffers (chunks @ [[CR, LF, CR, LF]]) newBytes of
                Inl e \<Rightarrow> Inl e
              | Inr raw \<Rightarrow>
                  (case parseHeaders raw of
                     Inl e \<Rightarrow> Inl e
                   | Inr hs \<Rightarrow>
                       Inr (s\<lparr>headersParsed := True, headerBytes := newBytes,
                              rawHeaders := Some raw, headers := Some hs,
                              headerChunks := None,
                              emitted := emitted s @ [HeadersEvent hs, PushEvent [CR, LF]]\<rparr>))))"

subsection \<open>The stream machinery around the callbacks\<close>

text \<open>
  Node's Transform stream hands the chunks to \<open>_transform\<close> one at a time, the next one
  after the callback of the one before has run, and calls \<open>_flush\<close> once after the last.
  The tasks queued with \<open>setImmediate\<close> run in the order they were queued, so a queued
  push runs before the callback queued after it.
\<close>

fun runTasks :: "task list \<Rightarrow> event list" where
  "runTasks [] = []"
| "runTasks (PushTask chunk # ts) = PushEvent chunk # runTasks ts"
| "runTasks (CallbackTask # ts) = runTasks ts"

definition runImmediates :: "splitter \<Rightarrow> splitter" where
  "runImmediates s = s\<lparr>emitted := emitted s @ runTasks (immediates s), immediates := []\<rparr>"

fun writeAll :: "buffer list \<Rightarrow> splitter \<Rightarrow> error + splitter" where
  "writeAll [] s = Inr s"
| "writeAll (chunk # chunks) s =
     (case transform chunk s of
        Inl e \<Rightarrow> Inl e
      | Inr s1 \<Rightarrow> writeAll chunks (runImmediates s1))"

definition run :: "buffer list \<Rightarrow> error + splitter" where
  "run chunks = (case writeAll chunks newSplitter of Inl e \<Rightarrow> Inl e | Inr s \<Rightarrow> flush s)"

text \<open>The events of a whole stream, and the bytes it pushed downstream.\<close>

definition streamOutput :: "buffer list \<Rightarrow> error + event list" where
  "streamOutput chunks = (case run chunks of Inl e \<Rightarrow> Inl e | Inr s \<Rightarrow> Inr (emitted s))"

fun pushed :: "event list \<Rightarrow> buffer" where
  "pushed [] = []"
| "pushed (PushEvent chunk # es) = chunk @ pushed es"
| "pushed (HeadersEvent hs # es) = pushed es"

text \<open>Header bytes consumed and body bytes forwarded by a whole stream.\<close>

definition byteCounts :: "buffer list \<Rightarrow> error + (int \<times> int)" where
  "byteCounts chunks =
     (case run chunks of
        Inl e \<Rightarrow> Inl e
      | Inr s \<Rightarrow> Inr (headerBytes s, int (length (pushed (emitted s)))))"

section \<open>Reference definitions\<close>

text \<open>
  The boundary rule in the specification's words, over the window followed by the chunk as
  one byte sequence \<open>c\<close>: position \<open>i\<close> is a line feed, and either the byte before it is a
  line feed too, or the two bytes before it are a line feed and a carriage return.
\<close>

definition blankLineEndsAt :: "buffer \<Rightarrow> nat \<Rightarrow> bool" where
  "blankLineEndsAt c i =
     (1 \<le> i \<and> c ! i = LF \<and>
      (c ! (i - 1) = LF \<or> (2 \<le> i \<and> c ! (i - 2) = LF \<and> c ! (i - 1) = CR)))"


text \<open>
  Unfolding in the specification's words: a line that starts with a space or a tab and is
  not the first line is joined to the logical line before it with one newline; the other
  lines each start a logical line, in their order.
\<close>

fun foldInto :: "string \<Rightarrow> string list \<Rightarrow> string list" where
  "foldInto cur [] = [cur]"
| "foldInto cur (l # ls) =
     (if isContinuation l then foldInto (cur @ [LF] @ l) ls else cur # foldInto l ls)"

definition unfoldLines :: "string list \<Rightarrow> string list" where
  "unfoldLines ls = (case ls of [] \<Rightarrow> [] | l # rest \<Rightarrow> foldInto l rest)"


text \<open>The header block the parser produces, by the reference definitions.\<close>

definition headerBlock :: "buffer \<Rightarrow> slot list" where
  "headerBlock hdrs =
     map (\<lambda>x. Ent (makeEntry x)) (unfoldLines (splitLines (stripTrailingBreaks (toString hdrs))))"

text \<open>
  The two shapes of a splitter between chunks, relative to the input \<open>inp\<close> consumed so
  far. While accumulating, the chunks kept are the input, the window is the last four
  bytes of the zero window followed by the input, and no boundary lies in them. Once the
  boundary is found at position \<open>m\<close> of the zero window followed by the input, the raw
  headers are the first \<open>m - 3\<close> input bytes, the headers event is the first event, and
  the pushed chunks are the rest of the input, less one byte where the chunk that held the
  boundary ended one byte after it.
\<close>

abbreviation emptyWindow :: buffer where
  "emptyWindow \<equiv> replicate 4 (CHR 0x00)"

definition accumulatingOn :: "buffer \<Rightarrow> splitter \<Rightarrow> bool" where
  "accumulatingOn inp s =
     (\<not> headersParsed s \<and> (\<exists>cs. headerChunks s = Some cs \<and> concat cs = inp)
      \<and> headerBytes s = int (length inp)
      \<and> lastBytes s = drop (length inp) (emptyWindow @ inp)
      \<and> scanFrom emptyWindow inp 0 = None
      \<and> emitted s = [] \<and> immediates s = [])"

definition forwardingOn :: "buffer \<Rightarrow> splitter \<Rightarrow> bool" where
  "forwardingOn inp s =
     (headersParsed s \<and> headerChunks s = None \<and> immediates s = []
      \<and> (\<exists>m bs. scanFrom emptyWindow inp 0 = Some m \<and> 4 \<le> m
            \<and> rawHeaders s = Some (take (m - 3) inp)
            \<and> headers s = Some (headerBlock (take (m - 3) inp))
            \<and> headerBytes s = int (m - 3)
            \<and> emitted s = HeadersEvent (headerBlock (take (m - 3) inp)) # map PushEvent bs
            \<and> (concat bs = drop (m - 3) inp
                \<or> (m - 3 < length inp \<and> concat bs = drop (m - 2) inp))))"

section \<open>The boundary scan\<close>

lemma byteAt_append:
  "i < length lb + length data \<Longrightarrow> byteAt lb data i = (lb @ data) ! i"
  by (simp add: byteAt_def nth_append)

lemma boundaryHere_iff:
  assumes "i < length lb + length data"
  shows "boundaryHere lb data i = blankLineEndsAt (lb @ data) i"
proof -
  have a: "byteAt lb data i = (lb @ data) ! i"
    using assms by (rule byteAt_append)
  have b: "byteAt lb data (i - 1) = (lb @ data) ! (i - 1)"
    using assms by (intro byteAt_append) simp
  have c: "byteAt lb data (i - 2) = (lb @ data) ! (i - 2)"
    using assms by (intro byteAt_append) simp
  show ?thesis
    unfolding boundaryHere_def blankLineEndsAt_def Let_def a b c
    by auto
qed

lemma skip_non_boundary:
  assumes "\<not> P (k::nat)"
  shows "(\<forall>j. Suc k \<le> j \<and> j < n \<longrightarrow> \<not> P j) = (\<forall>j. k \<le> j \<and> j < n \<longrightarrow> \<not> P j)"
proof
  assume r: "\<forall>j. Suc k \<le> j \<and> j < n \<longrightarrow> \<not> P j"
  show "\<forall>j. k \<le> j \<and> j < n \<longrightarrow> \<not> P j"
  proof (intro allI impI)
    fix j assume j: "k \<le> j \<and> j < n"
    show "\<not> P j"
    proof (cases "j = k")
      case True
      then show ?thesis using assms by simp
    next
      case False
      then have "Suc k \<le> j" using j by simp
      then show ?thesis using r j by blast
    qed
  qed
next
  assume "\<forall>j. k \<le> j \<and> j < n \<longrightarrow> \<not> P j"
  then show "\<forall>j. Suc k \<le> j \<and> j < n \<longrightarrow> \<not> P j"
    by (simp add: Suc_le_eq)
qed

lemma scanFrom_Some_iff:
  "scanFrom lb data k = Some i \<longleftrightarrow>
     k \<le> i \<and> i < length lb + length data \<and> boundaryHere lb data i \<and>
     (\<forall>j. k \<le> j \<and> j < i \<longrightarrow> \<not> boundaryHere lb data j)"
proof (induction lb data k rule: scanFrom.induct)
  case (1 lb data k)
  show ?case
  proof (cases "k < length lb + length data")
    case False
    then show ?thesis by (subst scanFrom.simps) auto
  next
    case inr: True
    show ?thesis
    proof (cases "boundaryHere lb data k")
      case True
      have "scanFrom lb data k = Some k"
        using inr True by (subst scanFrom.simps) simp
      moreover have "i = k" if "k \<le> i" "\<forall>j. k \<le> j \<and> j < i \<longrightarrow> \<not> boundaryHere lb data j"
        using that True by (cases "k < i") auto
      ultimately show ?thesis
        using inr True by auto
    next
      case False
      have "scanFrom lb data k = scanFrom lb data (Suc k)"
        using inr False by (subst scanFrom.simps) simp
      moreover have "scanFrom lb data (Suc k) = Some i \<longleftrightarrow>
          Suc k \<le> i \<and> i < length lb + length data \<and> boundaryHere lb data i \<and>
          (\<forall>j. Suc k \<le> j \<and> j < i \<longrightarrow> \<not> boundaryHere lb data j)"
        using 1 inr False by simp
      moreover have "Suc k \<le> i \<longleftrightarrow> k \<le> i" if "boundaryHere lb data i"
        using that False by (cases "i = k") auto
      ultimately show ?thesis
        using skip_non_boundary [where P = "boundaryHere lb data" and k = k and n = i, OF False] by auto
    qed
  qed
qed

lemma scanFrom_None_iff:
  "scanFrom lb data k = None \<longleftrightarrow>
     (\<forall>j. k \<le> j \<and> j < length lb + length data \<longrightarrow> \<not> boundaryHere lb data j)"
proof (induction lb data k rule: scanFrom.induct)
  case (1 lb data k)
  show ?case
  proof (cases "k < length lb + length data")
    case False
    then show ?thesis by (subst scanFrom.simps) auto
  next
    case inr: True
    show ?thesis
    proof (cases "boundaryHere lb data k")
      case True
      then show ?thesis
        using inr by (subst scanFrom.simps) auto
    next
      case False
      have "scanFrom lb data k = scanFrom lb data (Suc k)"
        using inr False by (subst scanFrom.simps) simp
      moreover have "scanFrom lb data (Suc k) = None \<longleftrightarrow>
          (\<forall>j. Suc k \<le> j \<and> j < length lb + length data \<longrightarrow> \<not> boundaryHere lb data j)"
        using 1 inr False by simp
      ultimately show ?thesis
        using skip_non_boundary [where P = "boundaryHere lb data" and k = k and n = "length lb + length data", OF False] by simp
    qed
  qed
qed

section \<open>The tail window\<close>

lemma upt_small:
  "[0..<4] = [0, 1, 2, 3::nat]" "[0..<3] = [0, 1, 2::nat]" "[0..<2] = [0, 1::nat]"
  "[0..<1] = [0::nat]" "[1..<5] = [1, 2, 3, 4::nat]" "[1..<4] = [1, 2, 3::nat]"
  "[1..<3] = [1, 2::nat]" "[1..<2] = [1::nat]"
  "[Suc 0..<5] = [1, 2, 3, 4]" "[Suc 0..<4] = [1, 2, 3]" "[Suc 0..<3] = [1, 2]"
  by code_simp+

lemma updateLastBytes_four:
  "updateLastBytes [a, b, c, d] [] = [a, b, c, d]"
  "updateLastBytes [a, b, c, d] [x] = [b, c, d, x]"
  "updateLastBytes [a, b, c, d] [x, y] = [c, d, x, y]"
  "updateLastBytes [a, b, c, d] [x, y, z] = [d, x, y, z]"
  by (simp_all add: updateLastBytes_def upt_small)

lemma updateLastBytes_long:
  assumes "4 \<le> length data"
  shows "updateLastBytes [a, b, c, d] data =
     [data ! (length data - 4), data ! (length data - 3), data ! (length data - 2),
      data ! (length data - 1)]"
proof -
  have m: "min (length data) 4 = 4" using assms by simp
  have l: "length [a, b, c, d] = 4" by simp
  show ?thesis
    unfolding updateLastBytes_def Let_def l m by (simp add: upt_small)
qed

lemma short_list_cases:
  assumes "length xs < 4"
  shows "xs = [] \<or> (\<exists>x. xs = [x]) \<or> (\<exists>x y. xs = [x, y]) \<or> (\<exists>x y z. xs = [x, y, z])"
proof (cases xs)
  case Nil
  then show ?thesis by simp
next
  case c1: (Cons x xs1)
  show ?thesis
  proof (cases xs1)
    case Nil
    then show ?thesis using c1 by simp
  next
    case c2: (Cons y xs2)
    show ?thesis
    proof (cases xs2)
      case Nil
      then show ?thesis using c1 c2 by simp
    next
      case c3: (Cons z xs3)
      then have "xs3 = []" using assms c1 c2 by simp
      then show ?thesis using c1 c2 c3 by simp
    qed
  qed
qed

lemma updateLastBytes_last4:
  assumes "length lb = 4"
  shows "updateLastBytes lb data = drop (length data) (lb @ data)"
proof -
  obtain a b c d where lb: "lb = [a, b, c, d]"
    using assms by (auto simp: length_Suc_conv numeral_eq_Suc)
  show ?thesis
  proof (cases "length data < 4")
    case True
    from short_list_cases [OF True] show ?thesis
      by (auto simp: lb updateLastBytes_four)
  next
    case False
    then have long: "4 \<le> length data" by simp
    have "drop (length data) (lb @ data) = drop (length data - 4) data"
      using assms long by simp
    also have "\<dots> = [data ! (length data - 4), data ! (length data - 3),
        data ! (length data - 2), data ! (length data - 1)]"
    proof (rule nth_equalityI)
      show "length (drop (length data - 4) data) = length [data ! (length data - 4),
         data ! (length data - 3), data ! (length data - 2), data ! (length data - 1)]"
        using long by simp
    next
      fix i assume "i < length (drop (length data - 4) data)"
      then have "i < 4" using long by simp
      then have "i = 0 \<or> i = 1 \<or> i = 2 \<or> i = 3" by arith
      moreover have "length data - 4 + 1 = length data - 3" "length data - 4 + 2 = length data - 2"
        "length data - 4 + 3 = length data - 1"
        using long by simp_all
      ultimately show "drop (length data - 4) data ! i = [data ! (length data - 4),
         data ! (length data - 3), data ! (length data - 2), data ! (length data - 1)] ! i"
        using long by auto
    qed
    finally show ?thesis
      using updateLastBytes_long [OF long] lb by simp
  qed
qed

section \<open>The header parser computes the unfolded lines\<close>

lemma isContinuation_merged: "isContinuation (x @ [LF] @ l) = isContinuation x"
  by (cases x) (simp_all add: isContinuation_def)

lemma foldInto_snoc_cont:
  "isContinuation l \<Longrightarrow> foldInto cur (p @ [x, l]) = foldInto cur (p @ [x @ [LF] @ l])"
proof (induction p arbitrary: cur)
  case Nil
  then show ?case using isContinuation_merged [of x l] by simp
next
  case (Cons a p)
  then show ?case by simp
qed

lemma foldInto_snoc_plain:
  "\<not> isContinuation l \<Longrightarrow> foldInto cur (p @ [l]) = foldInto cur p @ [l]"
  by (induction p arbitrary: cur) simp_all

lemma unfoldLines_snoc_cont:
  "isContinuation l \<Longrightarrow> unfoldLines (p @ [x, l]) = unfoldLines (p @ [x @ [LF] @ l])"
  by (cases p) (simp_all add: unfoldLines_def foldInto_snoc_cont)

lemma unfoldLines_snoc_plain:
  "\<not> isContinuation l \<Longrightarrow> unfoldLines (p @ [x, l]) = unfoldLines (p @ [x]) @ [l]"
proof (cases p)
  case Nil
  assume "\<not> isContinuation l"
  then show ?thesis using Nil by (simp add: unfoldLines_def)
next
  case (Cons a q)
  assume "\<not> isContinuation l"
  then show ?thesis
    using Cons foldInto_snoc_plain [of l a "q @ [x]"] by (simp add: unfoldLines_def)
qed

lemma parseLoop_unfold:
  "parseLoop (Suc (length pre)) (map Str pre @ Str l # rest) =
     Inr (map (\<lambda>x. Ent (makeEntry x)) (unfoldLines (pre @ [l])) @ rest)"
proof (induction pre arbitrary: l rest rule: rev_induct)
  case Nil
  show ?case by (simp add: unfoldLines_def)
next
  case (snoc x p)
  let ?lines = "map Str (p @ [x]) @ Str l # rest"
  have len: "length (p @ [x]) < length ?lines" by simp
  have cur: "?lines ! length (p @ [x]) = Str l"
    by (metis length_map nth_append_length)
  have prev: "?lines ! (length (p @ [x]) - 1) = Str x"
    by (simp add: nth_append)
  show ?case
  proof (cases "isContinuation l")
    case True
    have "splice (?lines[length (p @ [x]) - 1 := Str (x @ [LF] @ l)]) (length (p @ [x]))
        = map Str p @ Str (x @ [LF] @ l) # rest"
      by (simp add: splice_def list_update_append)
    then have "parseLoop (Suc (length (p @ [x]))) ?lines =
        parseLoop (Suc (length p)) (map Str p @ Str (x @ [LF] @ l) # rest)"
      using True len cur prev by (simp del: append_assoc map_append)
    also have "\<dots> = Inr (map (\<lambda>x. Ent (makeEntry x)) (unfoldLines (p @ [x @ [LF] @ l])) @ rest)"
      by (rule snoc.IH)
    finally show ?thesis
      using unfoldLines_snoc_cont [OF True, of p x] by simp
  next
    case False
    have "?lines[length (p @ [x]) := Ent (makeEntry l)]
        = map Str p @ Str x # (Ent (makeEntry l) # rest)"
      by (simp add: list_update_append)
    then have "parseLoop (Suc (length (p @ [x]))) ?lines =
        parseLoop (Suc (length p)) (map Str p @ Str x # (Ent (makeEntry l) # rest))"
      using False len cur by (simp del: append_assoc map_append)
    also have "\<dots> = Inr (map (\<lambda>x. Ent (makeEntry x)) (unfoldLines (p @ [x])) @ Ent (makeEntry l) # rest)"
      by (rule snoc.IH)
    finally show ?thesis
      using unfoldLines_snoc_plain [OF False, of p x] by simp
  qed
qed

lemma splitLines_not_Nil: "splitLines s \<noteq> []"
  by (induction s rule: splitLines.induct) (auto split: list.splits)

lemma parseHeaders_unfold:
  "parseHeaders hdrs =
     Inr (map (\<lambda>x. Ent (makeEntry x))
            (unfoldLines (splitLines (stripTrailingBreaks (toString hdrs)))))"
proof -
  let ?ls = "splitLines (stripTrailingBreaks (toString hdrs))"
  have ne: "?ls \<noteq> []" by (rule splitLines_not_Nil)
  then have dec: "?ls = butlast ?ls @ [last ?ls]" by simp
  have len: "length ?ls = Suc (length (butlast ?ls))" using ne by simp
  have "parseHeaders hdrs = parseLoop (Suc (length (butlast ?ls))) (map Str (butlast ?ls) @ Str (last ?ls) # [])"
    unfolding parseHeaders_def Let_def length_map len
    using dec by (metis list.simps(8,9) map_append)
  also have "\<dots> = Inr (map (\<lambda>x. Ent (makeEntry x)) (unfoldLines (butlast ?ls @ [last ?ls])) @ [])"
    by (rule parseLoop_unfold)
  finally show ?thesis using dec by simp
qed

section \<open>The window sees what a scan of the whole input sees\<close>

lemma scan_Some:
  "scanFrom lb data 0 = Some i \<longleftrightarrow>
     i < length (lb @ data) \<and> blankLineEndsAt (lb @ data) i \<and>
     (\<forall>j<i. \<not> blankLineEndsAt (lb @ data) j)"
proof -
  have "(\<forall>j. 0 \<le> j \<and> j < i \<longrightarrow> \<not> boundaryHere lb data j)
      = (\<forall>j<i. \<not> blankLineEndsAt (lb @ data) j)"
    if "i < length lb + length data"
    using that boundaryHere_iff [of _ lb data] by auto
  then show ?thesis
    using scanFrom_Some_iff [of lb data 0 i] boundaryHere_iff [of i lb data] by auto
qed

lemma scan_None:
  "scanFrom lb data 0 = None \<longleftrightarrow> (\<forall>j<length (lb @ data). \<not> blankLineEndsAt (lb @ data) j)"
  using scanFrom_None_iff [of lb data 0] boundaryHere_iff [of _ lb data] by auto

lemma blank_prefix:
  assumes "i < length c"
  shows "blankLineEndsAt (c @ d) i = blankLineEndsAt c i"
proof -
  have "i - 1 < length c" "i - 2 < length c" using assms by simp_all
  then have "(c @ d) ! i = c ! i" "(c @ d) ! (i - 1) = c ! (i - 1)"
    "(c @ d) ! (i - 2) = c ! (i - 2)"
    using assms by (simp_all only: nth_append if_True)
  then show ?thesis by (simp only: blankLineEndsAt_def)
qed

lemma blank_shift:
  assumes "blankLineEndsAt (drop k c) i" "k + i < length c"
  shows "blankLineEndsAt c (k + i)"
proof -
  have a: "drop k c ! i = c ! (k + i)" using assms(2) by simp
  have b: "drop k c ! (i - 1) = c ! (k + i - 1)" if "1 \<le> i"
    using assms(2) that by simp
  have c: "drop k c ! (i - 2) = c ! (k + i - 2)" if "2 \<le> i"
    using assms(2) that by simp
  show ?thesis
    using assms(1) a b c unfolding blankLineEndsAt_def by auto
qed

lemma blank_unshift:
  assumes "blankLineEndsAt c (k + i)" "2 \<le> i" "k + i < length c"
  shows "blankLineEndsAt (drop k c) i"
proof -
  have a: "drop k c ! i = c ! (k + i)" using assms(3) by simp
  have b: "drop k c ! (i - 1) = c ! (k + i - 1)"
    using assms(2,3) by simp
  have c: "drop k c ! (i - 2) = c ! (k + i - 2)"
    using assms(2,3) by simp
  show ?thesis
    using assms(1,2) a b c unfolding blankLineEndsAt_def by auto
qed

lemma window_scan:
  assumes lz: "length z = 4" and no: "scanFrom z inp 0 = None"
  shows "scanFrom (drop (length inp) (z @ inp)) data 0
           = map_option (\<lambda>m. m - length inp) (scanFrom z (inp @ data) 0)
         \<and> (\<forall>m. scanFrom z (inp @ data) 0 = Some m \<longrightarrow> length inp + 4 \<le> m)"
proof -
  let ?k = "length inp"
  let ?c = "z @ inp @ data"
  let ?w = "drop ?k (z @ inp)"
  have w: "?w @ data = drop ?k ?c" by simp
  have lw: "length (?w @ data) = 4 + length data" using lz by simp
  have lc: "length ?c = 4 + ?k + length data" using lz by simp
  have early: "\<not> blankLineEndsAt ?c m" if "m < ?k + 4" for m
  proof -
    have "m < length (z @ inp)" using that lz by simp
    then have "blankLineEndsAt ((z @ inp) @ data) m = blankLineEndsAt (z @ inp) m"
      by (rule blank_prefix)
    moreover have "\<not> blankLineEndsAt (z @ inp) m"
      using no \<open>m < length (z @ inp)\<close> scan_None [of z inp] by blast
    ultimately show ?thesis by simp
  qed
  have same: "blankLineEndsAt (?w @ data) i = blankLineEndsAt ?c (?k + i)"
    if "i < 4 + length data" for i
  proof (cases "2 \<le> i")
    case True
    show ?thesis
      unfolding w using blank_shift [of ?k ?c i] blank_unshift [of ?c ?k i] True that lc
      by auto
  next
    case False
    then have "\<not> blankLineEndsAt ?c (?k + i)" using early [of "?k + i"] by simp
    moreover have "\<not> blankLineEndsAt (?w @ data) i"
      unfolding w using blank_shift [of ?k ?c i] that lc calculation by auto
    ultimately show ?thesis by simp
  qed
  show ?thesis
  proof (cases "scanFrom z (inp @ data) 0")
    case None
    then have "\<not> blankLineEndsAt ?c m" if "m < length ?c" for m
      using that scan_None [of z "inp @ data"] by auto
    then have "\<not> blankLineEndsAt (?w @ data) i" if "i < length (?w @ data)" for i
      using that same [of i] lw lc by simp
    then have "scanFrom ?w data 0 = None"
      using scan_None [of ?w data] by blast
    then show ?thesis using None by simp
  next
    case (Some m)
    then have m: "m < length ?c" "blankLineEndsAt ?c m" "\<forall>j<m. \<not> blankLineEndsAt ?c j"
      using scan_Some [of z "inp @ data" m] by auto
    have late: "?k + 4 \<le> m"
      using early [of m] m(2) by (cases "m < ?k + 4") auto
    define i where "i = m - ?k"
    have mi: "m = ?k + i" and i4: "4 \<le> i" using late by (simp_all add: i_def)
    have ilt: "i < 4 + length data" using m(1) lc mi by simp
    have "blankLineEndsAt (?w @ data) i"
      using same [OF ilt] m(2) mi by simp
    moreover have "\<not> blankLineEndsAt (?w @ data) j" if "j < i" for j
    proof -
      have "j < 4 + length data" using that ilt by simp
      moreover have "?k + j < m" using that mi by simp
      ultimately show ?thesis using same [of j] m(3) by simp
    qed
    ultimately have "scanFrom ?w data 0 = Some i"
      using ilt lw scan_Some [of ?w data i] by simp
    then show ?thesis using Some late by (simp add: i_def)
  qed
qed

section \<open>The splitter between chunks\<close>

lemma parseHeaders_headerBlock: "parseHeaders hdrs = Inr (headerBlock hdrs)"
  by (simp add: parseHeaders_unfold headerBlock_def)

lemma slice_take: "p \<le> length data \<Longrightarrow> slice data 0 (int p) = take p data"
  by (simp add: slice_def Let_def min_def)

lemma slice_drop: "p \<le> length data \<Longrightarrow> slice data (int p) (int (length data)) = drop p data"
  by (simp add: slice_def Let_def min_def)

lemma concatBuffers_exact:
  "concat chunks = x \<Longrightarrow> n = int (length x) \<Longrightarrow> concatBuffers chunks n = Inr x"
  by (simp add: concatBuffers_def)

lemma drop_window:
  assumes "k \<le> length c"
  shows "drop n (drop k c @ d) = drop (k + n) (c @ d)"
proof -
  have "drop k c @ d = drop k (c @ d)" using assms by simp
  then show ?thesis by (simp only: drop_drop add.commute)
qed

lemma window_length: "length (drop (length inp) (emptyWindow @ inp)) = 4"
  by simp

lemma checkHeaders_no_boundary:
  assumes acc: "accumulatingOn inp s" and no: "scanFrom emptyWindow (inp @ data) 0 = None"
  shows "\<exists>s'. checkHeaders data s = Inr (False, s') \<and> accumulatingOn (inp @ data) s'"
proof -
  obtain cs where cs: "headerChunks s = Some cs" "concat cs = inp"
    using acc by (auto simp: accumulatingOn_def)
  have hp: "\<not> headersParsed s" and hb: "headerBytes s = int (length inp)"
    and lb: "lastBytes s = drop (length inp) (emptyWindow @ inp)"
    and clean: "scanFrom emptyWindow inp 0 = None"
    and em: "emitted s = []" "immediates s = []"
    using acc by (auto simp: accumulatingOn_def)
  have scan: "scanFrom (lastBytes s) data 0 = None"
    using window_scan [of emptyWindow inp data] clean no lb by simp
  have ll: "length (lastBytes s) = 4" using lb by simp
  have win: "updateLastBytes (lastBytes s) data
      = drop (length (inp @ data)) (emptyWindow @ inp @ data)"
    using updateLastBytes_last4 [OF ll, of data]
      drop_window [of "length inp" "emptyWindow @ inp" "length data" data]
    by (simp only: lb length_append append_assoc le_add2)
  let ?s' = "s\<lparr>curLinePos := Some 0, headerBytes := headerBytes s + int (length data),
      headerChunks := Some (cs @ [data]),
      lastBytes := updateLastBytes (lastBytes s) data\<rparr>"
  have "checkHeaders data s = Inr (False, ?s')"
    using hp scan cs by (simp add: checkHeaders_def Let_def)
  moreover have "accumulatingOn (inp @ data) ?s'"
    unfolding accumulatingOn_def using hp hb em cs no win by simp
  ultimately show ?thesis by blast
qed

lemma checkHeaders_boundary:
  assumes acc: "accumulatingOn inp s" and found: "scanFrom emptyWindow (inp @ data) 0 = Some m"
  shows "\<exists>s'. checkHeaders data s = Inr (False, s') \<and> headersParsed s' \<and> headerChunks s' = None
           \<and> rawHeaders s' = Some (take (m - 3) (inp @ data))
           \<and> headers s' = Some (headerBlock (take (m - 3) (inp @ data)))
           \<and> headerBytes s' = int (m - 3)
           \<and> emitted s' = [HeadersEvent (headerBlock (take (m - 3) (inp @ data)))]
           \<and> immediates s' = (if m - 2 < length inp + length data
                                then [PushTask (drop (m - 3) (inp @ data))] else [])
           \<and> length inp + 4 \<le> m \<and> m < 4 + length inp + length data"
proof -
  obtain cs where cs: "headerChunks s = Some cs" "concat cs = inp"
    using acc by (auto simp: accumulatingOn_def)
  have hp: "\<not> headersParsed s" and hb: "headerBytes s = int (length inp)"
    and lb: "lastBytes s = drop (length inp) (emptyWindow @ inp)"
    and clean: "scanFrom emptyWindow inp 0 = None"
    and em: "emitted s = []" "immediates s = []"
    using acc by (auto simp: accumulatingOn_def)
  have late: "length inp + 4 \<le> m"
    using window_scan [of emptyWindow inp data] clean found by simp
  have mlt: "m < 4 + length inp + length data"
    using found scan_Some [of emptyWindow "inp @ data" m] by simp
  define p where "p = m - 3 - length inp"
  have p: "1 \<le> p" "p \<le> length data" "m - 3 = length inp + p" "m - length inp = p + 3"
    using late mlt by (simp_all add: p_def)
  have scan: "scanFrom (lastBytes s) data 0 = Some (p + 3)"
    using window_scan [of emptyWindow inp data] clean found lb p(4) by simp
  have ll: "length (lastBytes s) = 4" using lb by simp
  have pos: "int (p + 3) - int (length (lastBytes s)) + 1 = int p"
    using ll by simp
  have raw: "take (m - 3) (inp @ data) = inp @ take p data"
    using p(3) by simp
  have rest: "drop (m - 3) (inp @ data) = drop p data"
    using p(3) by simp
  have cat: "concatBuffers (cs @ [slice data 0 (int p)]) (headerBytes s + int p)
      = Inr (inp @ take p data)"
  proof -
    have c: "concat (cs @ [slice data 0 (int p)]) = inp @ take p data"
      using cs p(2) by (simp add: slice_take)
    have t: "headerBytes s + int p = int (length (inp @ take p data))"
      using hb p(2) by simp
    show ?thesis
      by (rule concatBuffers_exact [OF c t])
  qed
  have cond: "(int p < int (length data) - 1) = (m - 2 < length inp + length data)"
    using p(3) late by arith
  have "\<exists>s'. checkHeaders data s = Inr (False, s') \<and> headersParsed s' \<and> headerChunks s' = None
           \<and> rawHeaders s' = Some (inp @ take p data)
           \<and> headers s' = Some (headerBlock (inp @ take p data))
           \<and> headerBytes s' = int (length inp + p)
           \<and> emitted s' = [HeadersEvent (headerBlock (inp @ take p data))]
           \<and> immediates s' = (if m - 2 < length inp + length data
                                then [PushTask (drop p data)] else [])"
    unfolding checkHeaders_def Let_def
    using hp scan cs(1) em p(2) cond
    by (simp add: ll hb cat [unfolded hb] parseHeaders_headerBlock slice_drop)
  then show ?thesis
    using late mlt by (auto simp: p(3))
qed


lemma scan_extend:
  assumes "scanFrom z inp 0 = Some m"
  shows "scanFrom z (inp @ data) 0 = Some m"
proof -
  have m: "m < length (z @ inp)" "blankLineEndsAt (z @ inp) m"
    "\<forall>j<m. \<not> blankLineEndsAt (z @ inp) j"
    using assms scan_Some [of z inp m] by auto
  have same: "blankLineEndsAt (z @ inp @ data) j = blankLineEndsAt (z @ inp) j" if "j \<le> m" for j
    using blank_prefix [of j "z @ inp" data] that m(1) by simp
  have "m < length (z @ inp @ data)" using m(1) by simp
  moreover have "blankLineEndsAt (z @ inp @ data) m" using same [of m] m(2) by simp
  moreover have "\<forall>j<m. \<not> blankLineEndsAt (z @ inp @ data) j" using same m(3) by simp
  ultimately show ?thesis using scan_Some [of z "inp @ data" m] by blast
qed

lemma accumulatingOn_runImmediates:
  assumes "accumulatingOn inp s1"
  shows "accumulatingOn inp (runImmediates (s1\<lparr>immediates := immediates s1 @ [CallbackTask]\<rparr>))"
  using assms by (simp add: accumulatingOn_def runImmediates_def)

lemma write_accumulating_none:
  assumes acc: "accumulatingOn inp s" and no: "scanFrom emptyWindow (inp @ data) 0 = None"
  shows "\<exists>s'. transform data s = Inr s' \<and> accumulatingOn (inp @ data) (runImmediates s')"
proof (cases "data = []")
  case True
  have "accumulatingOn inp (runImmediates s)"
    using acc by (simp add: accumulatingOn_def runImmediates_def)
  then show ?thesis using True by (simp add: transform_def)
next
  case False
  obtain s1 where s1: "checkHeaders data s = Inr (False, s1)" "accumulatingOn (inp @ data) s1"
    using checkHeaders_no_boundary [OF acc no] by blast
  have "transform data s = Inr (s1\<lparr>immediates := immediates s1 @ [CallbackTask]\<rparr>)"
    using False s1(1) by (simp add: transform_def)
  then show ?thesis
    using accumulatingOn_runImmediates [OF s1(2)] by simp
qed

lemma write_accumulating_found:
  assumes acc: "accumulatingOn inp s" and found: "scanFrom emptyWindow (inp @ data) 0 = Some m"
  shows "\<exists>s'. transform data s = Inr s' \<and> forwardingOn (inp @ data) (runImmediates s')"
proof -
  have "scanFrom emptyWindow inp 0 = None"
    using acc by (simp add: accumulatingOn_def)
  then have ne: "data \<noteq> []" using found by auto
  obtain s1 where s1: "checkHeaders data s = Inr (False, s1)" "headersParsed s1"
      "headerChunks s1 = None"
      "rawHeaders s1 = Some (take (m - 3) (inp @ data))"
      "headers s1 = Some (headerBlock (take (m - 3) (inp @ data)))"
      "headerBytes s1 = int (m - 3)"
      "emitted s1 = [HeadersEvent (headerBlock (take (m - 3) (inp @ data)))]"
      "immediates s1 = (if m - 2 < length inp + length data
                        then [PushTask (drop (m - 3) (inp @ data))] else [])"
    and late: "length inp + 4 \<le> m" and mlt: "m < 4 + length inp + length data"
    using checkHeaders_boundary [OF acc found] by blast
  let ?s' = "s1\<lparr>immediates := immediates s1 @ [CallbackTask]\<rparr>"
  have tr: "transform data s = Inr ?s'"
    using ne s1(1) by (simp add: transform_def)
  have "forwardingOn (inp @ data) (runImmediates ?s')"
  proof (cases "m - 2 < length inp + length data")
    case True
    have "emitted (runImmediates ?s') = HeadersEvent (headerBlock (take (m - 3) (inp @ data)))
        # map PushEvent [drop (m - 3) (inp @ data)]"
      using True s1(7,8) by (simp add: runImmediates_def)
    moreover have "concat [drop (m - 3) (inp @ data)] = drop (m - 3) (inp @ data)" by simp
    ultimately show ?thesis
      unfolding forwardingOn_def using s1(2-6) found late
      by (intro conjI exI [of _ m] exI [of _ "[drop (m - 3) (inp @ data)]"] disjI1)
         (simp_all add: runImmediates_def)
  next
    case False
    have em: "emitted (runImmediates ?s') = HeadersEvent (headerBlock (take (m - 3) (inp @ data)))
        # map PushEvent []"
      using False s1(7,8) by (simp add: runImmediates_def)
    have tail: "concat ([]::buffer list) = drop (m - 3) (inp @ data)
        \<or> (m - 3 < length (inp @ data) \<and> concat ([]::buffer list) = drop (m - 2) (inp @ data))"
      using False mlt late by (cases "m - 3 < length (inp @ data)") auto
    show ?thesis
      unfolding forwardingOn_def
    proof (intro conjI exI [of _ m] exI [of _ "[]::buffer list"])
      show "concat ([]::buffer list) = drop (m - 3) (inp @ data)
        \<or> (m - 3 < length (inp @ data) \<and> concat ([]::buffer list) = drop (m - 2) (inp @ data))"
        by (rule tail)
    qed (use s1(2-6) found late em in \<open>simp_all add: runImmediates_def\<close>)
  qed
  then show ?thesis using tr by blast
qed

lemma write_forwarding:
  assumes fw: "forwardingOn inp s"
  shows "\<exists>s'. transform data s = Inr s' \<and> forwardingOn (inp @ data) (runImmediates s')"
proof -
  obtain m bs where m: "scanFrom emptyWindow inp 0 = Some m" "4 \<le> m"
      "rawHeaders s = Some (take (m - 3) inp)"
      "headers s = Some (headerBlock (take (m - 3) inp))"
      "headerBytes s = int (m - 3)"
      "emitted s = HeadersEvent (headerBlock (take (m - 3) inp)) # map PushEvent bs"
      "concat bs = drop (m - 3) inp \<or> (m - 3 < length inp \<and> concat bs = drop (m - 2) inp)"
    and st: "headersParsed s" "headerChunks s = None" "immediates s = []"
    using fw unfolding forwardingOn_def by blast
  have mlt: "m < 4 + length inp"
    using m(1) scan_Some [of emptyWindow inp m] by simp
  have tk: "take (m - 3) (inp @ data) = take (m - 3) inp"
    using mlt by simp
  have sc: "scanFrom emptyWindow (inp @ data) 0 = Some m"
    by (rule scan_extend [OF m(1)])
  show ?thesis
  proof (cases "data = []")
    case True
    have "forwardingOn inp (runImmediates s)"
      using fw st unfolding forwardingOn_def by (simp add: runImmediates_def)
    then show ?thesis using True by (simp add: transform_def)
  next
    case False
    let ?s' = "s\<lparr>bodySize := bodySize s + int (length data),
                  emitted := emitted s @ [PushEvent data], immediates := [CallbackTask]\<rparr>"
    have tr: "transform data s = Inr ?s'"
      using False st by (simp add: transform_def checkHeaders_def)
    have em: "emitted (runImmediates ?s')
        = HeadersEvent (headerBlock (take (m - 3) (inp @ data))) # map PushEvent (bs @ [data])"
      unfolding tk using m(6) by (simp add: runImmediates_def)
    have tail: "concat (bs @ [data]) = drop (m - 3) (inp @ data)
        \<or> (m - 3 < length (inp @ data) \<and> concat (bs @ [data]) = drop (m - 2) (inp @ data))"
      using m(7) mlt by auto
    have "forwardingOn (inp @ data) (runImmediates ?s')"
      unfolding forwardingOn_def
    proof (intro conjI exI [of _ m] exI [of _ "bs @ [data]"])
      show "concat (bs @ [data]) = drop (m - 3) (inp @ data)
        \<or> (m - 3 < length (inp @ data) \<and> concat (bs @ [data]) = drop (m - 2) (inp @ data))"
        by (rule tail)
    qed (use st m(2-6) sc mlt in \<open>simp_all add: runImmediates_def\<close>)
    then show ?thesis using tr by blast
  qed
qed

lemma write_step:
  assumes "accumulatingOn inp s \<or> forwardingOn inp s"
  shows "\<exists>s'. transform data s = Inr s'
           \<and> (accumulatingOn (inp @ data) (runImmediates s')
                \<or> forwardingOn (inp @ data) (runImmediates s'))"
proof (cases "accumulatingOn inp s")
  case True
  show ?thesis
  proof (cases "scanFrom emptyWindow (inp @ data) 0")
    case None
    then show ?thesis using write_accumulating_none [OF True] by blast
  next
    case (Some m)
    then show ?thesis using write_accumulating_found [OF True] by blast
  qed
next
  case False
  then have "forwardingOn inp s" using assms by simp
  then show ?thesis using write_forwarding by blast
qed

lemma writeAll_invariant:
  assumes "accumulatingOn inp s \<or> forwardingOn inp s"
  shows "\<exists>s'. writeAll chunks s = Inr s'
           \<and> (accumulatingOn (inp @ concat chunks) s' \<or> forwardingOn (inp @ concat chunks) s')"
  using assms
proof (induction chunks arbitrary: inp s)
  case Nil
  then show ?case by simp
next
  case (Cons chunk chunks)
  obtain s1 where s1: "transform chunk s = Inr s1"
      "accumulatingOn (inp @ chunk) (runImmediates s1) \<or> forwardingOn (inp @ chunk) (runImmediates s1)"
    using write_step [OF Cons.prems] by blast
  obtain s' where "writeAll chunks (runImmediates s1) = Inr s'"
      "accumulatingOn ((inp @ chunk) @ concat chunks) s'
        \<or> forwardingOn ((inp @ chunk) @ concat chunks) s'"
    using Cons.IH [OF s1(2)] by blast
  then show ?case using s1(1) by simp
qed

lemma newSplitter_accumulating: "accumulatingOn [] newSplitter"
proof -
  have "scanFrom emptyWindow [] 0 = None" by code_simp
  then show ?thesis by (simp add: accumulatingOn_def newSplitter_def)
qed

lemma flush_accumulating:
  assumes "accumulatingOn inp s"
  shows "flush s = Inr (s\<lparr>headersParsed := True, headerBytes := int (length inp) + 4,
            rawHeaders := Some (inp @ [CR, LF, CR, LF]),
            headers := Some (headerBlock (inp @ [CR, LF, CR, LF])),
            headerChunks := None,
            emitted := [HeadersEvent (headerBlock (inp @ [CR, LF, CR, LF])), PushEvent [CR, LF]]\<rparr>)"
proof -
  obtain cs where cs: "headerChunks s = Some cs" "concat cs = inp"
    using assms by (auto simp: accumulatingOn_def)
  have hb: "headerBytes s = int (length inp)" and em: "emitted s = []"
    using assms by (auto simp: accumulatingOn_def)
  have c: "concat (cs @ [[CR, LF, CR, LF]]) = inp @ [CR, LF, CR, LF]"
    using cs by simp
  have t: "int (length inp) + 4 = int (length (inp @ [CR, LF, CR, LF]))" by simp
  have cat: "concatBuffers (cs @ [[CR, LF, CR, LF]]) (int (length inp) + 4)
      = Inr (inp @ [CR, LF, CR, LF])"
    by (rule concatBuffers_exact [OF c t])
  show ?thesis
    unfolding flush_def Let_def using cs(1) em
    by (simp add: hb cat parseHeaders_headerBlock)
qed

lemma flush_forwarding: "forwardingOn inp s \<Longrightarrow> flush s = Inr s"
  by (simp add: forwardingOn_def flush_def)

section \<open>Whole streams\<close>

lemma writeAll_from_new:
  "\<exists>s. writeAll chunks newSplitter = Inr s
       \<and> (accumulatingOn (concat chunks) s \<or> forwardingOn (concat chunks) s)"
  using writeAll_invariant [of "[]" newSplitter chunks] newSplitter_accumulating by simp

lemma run_shape:
  "\<exists>s hs bs. run chunks = Inr s \<and> emitted s = HeadersEvent (headerBlock hs) # map PushEvent bs"
proof -
  obtain s where s: "writeAll chunks newSplitter = Inr s"
      "accumulatingOn (concat chunks) s \<or> forwardingOn (concat chunks) s"
    using writeAll_from_new by blast
  from s(2) show ?thesis
  proof
    assume acc: "accumulatingOn (concat chunks) s"
    have "emitted (s\<lparr>headersParsed := True, headerBytes := int (length (concat chunks)) + 4,
            rawHeaders := Some (concat chunks @ [CR, LF, CR, LF]),
            headers := Some (headerBlock (concat chunks @ [CR, LF, CR, LF])),
            headerChunks := None,
            emitted := [HeadersEvent (headerBlock (concat chunks @ [CR, LF, CR, LF])),
                        PushEvent [CR, LF]]\<rparr>)
          = HeadersEvent (headerBlock (concat chunks @ [CR, LF, CR, LF])) # map PushEvent [[CR, LF]]"
      by simp
    then show ?thesis
      using s(1) flush_accumulating [OF acc] unfolding run_def by (metis sum.simps(6))
  next
    assume fw: "forwardingOn (concat chunks) s"
    then obtain m bs where
      "emitted s = HeadersEvent (headerBlock (take (m - 3) (concat chunks))) # map PushEvent bs"
      unfolding forwardingOn_def by blast
    then show ?thesis
      using s(1) flush_forwarding [OF fw] unfolding run_def by (metis sum.simps(6))
  qed
qed

lemma foldInto_not_Nil: "foldInto cur ls \<noteq> []"
  by (induction ls arbitrary: cur) simp_all

lemma unfoldLines_not_Nil: "ls \<noteq> [] \<Longrightarrow> unfoldLines ls \<noteq> []"
  by (cases ls) (simp_all add: unfoldLines_def foldInto_not_Nil)

lemma headerBlock_entries:
  "\<exists>es. headerBlock hdrs = map Ent es \<and> es \<noteq> []
        \<and> map line es = unfoldLines (splitLines (stripTrailingBreaks (toString hdrs)))
        \<and> map key es = map (\<lambda>l. normalizeHeader (substr l 0 (indexOf l (CHR '':''))))
                          (unfoldLines (splitLines (stripTrailingBreaks (toString hdrs))))"
proof -
  let ?ls = "unfoldLines (splitLines (stripTrailingBreaks (toString hdrs)))"
  have "headerBlock hdrs = map Ent (map makeEntry ?ls)"
    by (simp add: headerBlock_def)
  moreover have "map makeEntry ?ls \<noteq> []"
    using unfoldLines_not_Nil [OF splitLines_not_Nil] by simp
  moreover have "map line (map makeEntry ?ls) = ?ls"
    by (simp add: makeEntry_def comp_def)
  moreover have "map key (map makeEntry ?ls)
      = map (\<lambda>l. normalizeHeader (substr l 0 (indexOf l (CHR '':'')))) ?ls"
    by (simp add: makeEntry_def comp_def)
  ultimately show ?thesis by blast
qed

lemma run_result:
  "\<exists>s. run chunks = Inr s \<and>
     (case scanFrom emptyWindow (concat chunks) 0 of
        None \<Rightarrow>
          emitted s = [HeadersEvent (headerBlock (concat chunks @ [CR, LF, CR, LF])),
                       PushEvent [CR, LF]]
          \<and> headerBytes s = int (length (concat chunks)) + 4
      | Some m \<Rightarrow>
          (\<exists>bs. emitted s = HeadersEvent (headerBlock (take (m - 3) (concat chunks)))
                              # map PushEvent bs
             \<and> headerBytes s = int (m - 3)
             \<and> (concat bs = drop (m - 3) (concat chunks)
                  \<or> (m - 3 < length (concat chunks)
                      \<and> concat bs = drop (m - 2) (concat chunks)))))"
proof -
  obtain s where s: "writeAll chunks newSplitter = Inr s"
      "accumulatingOn (concat chunks) s \<or> forwardingOn (concat chunks) s"
    using writeAll_from_new by blast
  from s(2) show ?thesis
  proof
    assume acc: "accumulatingOn (concat chunks) s"
    then have no: "scanFrom emptyWindow (concat chunks) 0 = None"
      by (simp add: accumulatingOn_def)
    have "run chunks = flush s" using s(1) by (simp add: run_def)
    then show ?thesis
      using flush_accumulating [OF acc] no by simp
  next
    assume fw: "forwardingOn (concat chunks) s"
    have r: "run chunks = Inr s"
      using s(1) flush_forwarding [OF fw] by (simp add: run_def)
    obtain m bs where "scanFrom emptyWindow (concat chunks) 0 = Some m"
      "emitted s = HeadersEvent (headerBlock (take (m - 3) (concat chunks))) # map PushEvent bs"
      "headerBytes s = int (m - 3)"
      "concat bs = drop (m - 3) (concat chunks)
        \<or> (m - 3 < length (concat chunks) \<and> concat bs = drop (m - 2) (concat chunks))"
      using fw unfolding forwardingOn_def by blast
    then show ?thesis using r by auto
  qed
qed

lemma pushed_map_PushEvent: "pushed (map PushEvent bs) = concat bs"
  by (induction bs) simp_all

text \<open>
  Two ways of cutting the same input into chunks give the same headers event and the
  same header byte count; their bodies are equal or differ by one leading byte, the byte
  that is lost when the chunk holding the boundary ends one byte after it.
\<close>

lemma header_block_fragmentation_invariant:
  assumes "concat chunks = concat chunks'"
  shows "\<exists>s s' hs bs bs'. run chunks = Inr s \<and> run chunks' = Inr s'
           \<and> emitted s = HeadersEvent hs # map PushEvent bs
           \<and> emitted s' = HeadersEvent hs # map PushEvent bs'
           \<and> headerBytes s = headerBytes s'
           \<and> (concat bs = concat bs' \<or> (\<exists>x. concat bs = x # concat bs')
                \<or> (\<exists>x. concat bs' = x # concat bs))"
proof (cases "scanFrom emptyWindow (concat chunks) 0")
  case None
  obtain s where s: "run chunks = Inr s"
      "emitted s = [HeadersEvent (headerBlock (concat chunks @ [CR, LF, CR, LF])), PushEvent [CR, LF]]"
      "headerBytes s = int (length (concat chunks)) + 4"
    using run_result [of chunks] None by auto
  obtain s' where s': "run chunks' = Inr s'"
      "emitted s' = [HeadersEvent (headerBlock (concat chunks @ [CR, LF, CR, LF])), PushEvent [CR, LF]]"
      "headerBytes s' = int (length (concat chunks)) + 4"
    using run_result [of chunks'] None assms by auto
  have "emitted s = HeadersEvent (headerBlock (concat chunks @ [CR, LF, CR, LF])) # map PushEvent [[CR, LF]]"
    "emitted s' = HeadersEvent (headerBlock (concat chunks @ [CR, LF, CR, LF])) # map PushEvent [[CR, LF]]"
    using s(2) s'(2) by simp_all
  then show ?thesis using s(1,3) s'(1,3) by (metis (no_types, lifting))
next
  case (Some m)
  let ?inp = "concat chunks"
  obtain s bs where s: "run chunks = Inr s"
      "emitted s = HeadersEvent (headerBlock (take (m - 3) ?inp)) # map PushEvent bs"
      "headerBytes s = int (m - 3)"
      "concat bs = drop (m - 3) ?inp \<or> (m - 3 < length ?inp \<and> concat bs = drop (m - 2) ?inp)"
    using run_result [of chunks] Some by auto
  obtain s' bs' where s': "run chunks' = Inr s'"
      "emitted s' = HeadersEvent (headerBlock (take (m - 3) ?inp)) # map PushEvent bs'"
      "headerBytes s' = int (m - 3)"
      "concat bs' = drop (m - 3) ?inp \<or> (m - 3 < length ?inp \<and> concat bs' = drop (m - 2) ?inp)"
    using run_result [of chunks'] Some assms by auto
  have m4: "4 \<le> m"
    using Some scan_Some [of emptyWindow ?inp m]
    by (cases "4 \<le> m") (auto simp: blankLineEndsAt_def nth_append)
  have step: "drop (m - 3) ?inp = ?inp ! (m - 3) # drop (m - 2) ?inp" if "m - 3 < length ?inp"
  proof -
    have "Suc (m - 3) = m - 2" using m4 by simp
    then show ?thesis using Cons_nth_drop_Suc [OF that] by simp
  qed
  have "concat bs = concat bs' \<or> (\<exists>x. concat bs = x # concat bs')
                \<or> (\<exists>x. concat bs' = x # concat bs)"
    using s(4) s'(4) step by auto
  then show ?thesis using s(1-3) s'(1-3) by (metis (no_types, lifting))
qed

text \<open>
  The byte counts of an input fed as one chunk. With the boundary at position \<open>m\<close> of
  the zero window followed by the input, \<open>m - 3\<close> bytes are header bytes; the rest is
  forwarded when it is at least two bytes long.
\<close>

lemma single_chunk_byte_counts:
  "byteCounts [data] =
     Inr (case scanFrom emptyWindow data 0 of
            None \<Rightarrow> (int (length data) + 4, 2)
          | Some m \<Rightarrow> (int (m - 3),
                       if m - 2 < length data then int (length data) - int (m - 3) else 0))"
proof (cases "scanFrom emptyWindow data 0")
  case None
  have no: "scanFrom emptyWindow ([] @ data) 0 = None" using None by simp
  obtain s1 where s1: "transform data newSplitter = Inr s1"
      "accumulatingOn ([] @ data) (runImmediates s1)"
    using write_accumulating_none [OF newSplitter_accumulating no] by blast
  have "run [data] = flush (runImmediates s1)"
    using s1(1) by (simp add: run_def)
  then show ?thesis
    using flush_accumulating [OF s1(2)] None by (simp add: byteCounts_def)
next
  case (Some m)
  have found: "scanFrom emptyWindow ([] @ data) 0 = Some m" using Some by simp
  have ne: "data \<noteq> []"
  proof
    assume "data = []"
    moreover have "scanFrom emptyWindow [] 0 = None" by code_simp
    ultimately show False using Some by simp
  qed
  obtain s1 where s1: "checkHeaders data newSplitter = Inr (False, s1)"
      "headerChunks s1 = None" "headerBytes s1 = int (m - 3)"
      "emitted s1 = [HeadersEvent (headerBlock (take (m - 3) ([] @ data)))]"
      "immediates s1 = (if m - 2 < length ([]::buffer) + length data
                        then [PushTask (drop (m - 3) ([] @ data))] else [])"
    and mlt: "m < 4 + length ([]::buffer) + length data"
    using checkHeaders_boundary [OF newSplitter_accumulating found] by blast
  let ?s2 = "runImmediates (s1\<lparr>immediates := immediates s1 @ [CallbackTask]\<rparr>)"
  have tr: "transform data newSplitter = Inr (s1\<lparr>immediates := immediates s1 @ [CallbackTask]\<rparr>)"
    using ne s1(1) by (simp add: transform_def)
  have fl: "flush ?s2 = Inr ?s2"
    using s1(2) by (simp add: flush_def runImmediates_def)
  have run: "run [data] = Inr ?s2"
    using tr fl by (simp add: run_def)
  have hb: "headerBytes ?s2 = int (m - 3)"
    using s1(3) by (simp add: runImmediates_def)
  have pu: "int (length (pushed (emitted ?s2)))
      = (if m - 2 < length data then int (length data) - int (m - 3) else 0)"
    using s1(4,5) mlt by (auto simp: runImmediates_def)
  show ?thesis
    using run hb pu Some by (simp add: byteCounts_def)
qed

text \<open>The boundary split over two chunks: the example of the specification.\<close>

lemma cross_chunk_boundary_example:
  "streamOutput [''Header: 1'' @ [CR, LF, CR], [LF] @ ''BODY'']
     = Inr [HeadersEvent [Ent \<lparr>key = ''header'', line = ''Header: 1''\<rparr>], PushEvent ''BODY'']"
  by code_simp

section \<open>Conservation and fragmentation\<close>

text \<open>
  C1 (conservation). The claim: for an input fed as one chunk, header bytes consumed plus
  body bytes forwarded is the input length (plus 4 and 2 without a boundary); no byte is
  dropped. The code breaks it when exactly one byte follows the blank line in the chunk
  that holds the boundary: the test \<open>data.length - 1 > headerPos\<close> forwards the rest of
  the chunk only when it is at least two bytes long, while \<open>_transform\<close> forwards a later
  chunk of any length. For the 7-byte message \<open>A: 1\<close> LF LF \<open>B\<close> the splitter counts 6
  header bytes and forwards nothing, so the byte \<open>B\<close> is lost. In every other case the
  counts add up as claimed (\<open>single_chunk_byte_counts\<close>).
\<close>

theorem conservation_fails_on_one_trailing_byte:
  "byteCounts [''A: 1'' @ [LF, LF] @ ''B''] = Inr (6, 0)
   \<and> length (''A: 1'' @ [LF, LF] @ ''B'') = 7"
  by code_simp

text \<open>
  C2 (fragmentation invariance). The claim: every way of cutting the input into chunks
  gives the same header block and the same body as one chunk. The message of C1 gives the
  body \<open>B\<close> when the cut falls right after the blank line and no body at all as a single
  chunk, because of the lost byte of C1. The header block is the same for every cut, and
  the bodies differ by at most that byte (\<open>header_block_fragmentation_invariant\<close>); the
  boundary split over two chunks is found (\<open>cross_chunk_boundary_example\<close>).
\<close>

theorem fragmentation_changes_body:
  "streamOutput [''A: 1'' @ [LF, LF] @ ''B'']
     = Inr [HeadersEvent [Ent \<lparr>key = ''a'', line = ''A: 1''\<rparr>]]
   \<and> streamOutput [''A: 1'' @ [LF, LF], ''B'']
     = Inr [HeadersEvent [Ent \<lparr>key = ''a'', line = ''A: 1''\<rparr>], PushEvent ''B'']"
  by code_simp

section \<open>Emission order, stream end and the header block\<close>

lemma still_accumulating:
  assumes "writeAll chunks newSplitter = Inr s" "\<not> headersParsed s"
  shows "accumulatingOn (concat chunks) s"
  using writeAll_from_new [of chunks] assms by (auto simp: forwardingOn_def)

text \<open>
  C3 (single emission and ordering). Every stream run to its end succeeds, and what it
  emits is one headers event followed by pushed body chunks only: the headers event
  happens exactly once and before any body byte is pushed. This covers the chunk that
  holds both the boundary and body bytes (its push is queued with \<open>setImmediate\<close> and runs
  after the event) and the stream without a boundary (the event and the synthesized body
  come from \<open>_flush\<close>, in this order).
\<close>

theorem headers_once_before_body:
  "\<exists>s hs bs. run chunks = Inr s \<and> emitted s = HeadersEvent hs # map PushEvent bs"
  using run_shape [of chunks] by blast

theorem headers_once_before_body_witness:
  "\<exists>s hs bs. run [''A: 1'' @ [LF, LF] @ ''BODY'', ''more''] = Inr s
      \<and> emitted s = HeadersEvent hs # map PushEvent bs"
  using headers_once_before_body [of "[''A: 1'' @ [LF, LF] @ ''BODY'', ''more'']"] .

text \<open>
  C6 (no boundary found). When all chunks are written and the splitter is still
  accumulating, \<open>_flush\<close> does not fail: the raw headers are the whole input followed by
  CR LF CR LF, the header byte count is the input length plus 4, the headers event carries
  the parse of these raw headers, and the only body pushed is CR LF. The input
  \<open>X-Test: 1\<close> gives the entry with key \<open>x-test\<close> and line \<open>X-Test: 1\<close>, and the body CR LF.
\<close>

theorem no_boundary_degradation:
  assumes "writeAll chunks newSplitter = Inr s" and "\<not> headersParsed s"
  shows "(\<exists>s' hs. flush s = Inr s'
            \<and> rawHeaders s' = Some (concat chunks @ [CR, LF, CR, LF])
            \<and> headerBytes s' = int (length (concat chunks)) + 4
            \<and> parseHeaders (concat chunks @ [CR, LF, CR, LF]) = Inr hs
            \<and> emitted s' = [HeadersEvent hs, PushEvent [CR, LF]])
         \<and> streamOutput [''X-Test: 1'']
             = Inr [HeadersEvent [Ent \<lparr>key = ''x-test'', line = ''X-Test: 1''\<rparr>],
                    PushEvent [CR, LF]]"
proof
  have acc: "accumulatingOn (concat chunks) s"
    using assms by (rule still_accumulating)
  show "\<exists>s' hs. flush s = Inr s'
            \<and> rawHeaders s' = Some (concat chunks @ [CR, LF, CR, LF])
            \<and> headerBytes s' = int (length (concat chunks)) + 4
            \<and> parseHeaders (concat chunks @ [CR, LF, CR, LF]) = Inr hs
            \<and> emitted s' = [HeadersEvent hs, PushEvent [CR, LF]]"
    using flush_accumulating [OF acc] parseHeaders_headerBlock [of "concat chunks @ [CR, LF, CR, LF]"]
    by simp
next
  show "streamOutput [''X-Test: 1'']
             = Inr [HeadersEvent [Ent \<lparr>key = ''x-test'', line = ''X-Test: 1''\<rparr>],
                    PushEvent [CR, LF]]"
    by code_simp
qed

theorem no_boundary_degradation_witness:
  "writeAll [''X-Test: 1''] newSplitter
     = Inr \<lparr>lastBytes = ''t: 1'', headersParsed = False, headerBytes = 9,
            headerChunks = Some [''X-Test: 1''], rawHeaders = None, headers = None,
            bodySize = 0, curLinePos = Some 0, emitted = [], immediates = []\<rparr>
   \<and> (\<exists>s'. flush \<lparr>lastBytes = ''t: 1'', headersParsed = False, headerBytes = 9,
            headerChunks = Some [''X-Test: 1''], rawHeaders = None, headers = None,
            bodySize = 0, curLinePos = Some 0, emitted = [], immediates = []\<rparr> = Inr s'
        \<and> rawHeaders s' = Some (''X-Test: 1'' @ [CR, LF, CR, LF])
        \<and> emitted s' = [HeadersEvent [Ent \<lparr>key = ''x-test'', line = ''X-Test: 1''\<rparr>],
                         PushEvent [CR, LF]])"
proof -
  let ?s = "\<lparr>lastBytes = ''t: 1'', headersParsed = False, headerBytes = 9,
            headerChunks = Some [''X-Test: 1''], rawHeaders = None, headers = None,
            bodySize = 0, curLinePos = Some 0, emitted = [], immediates = []\<rparr>"
  have w: "writeAll [''X-Test: 1''] newSplitter = Inr ?s" by code_simp
  have h: "\<not> headersParsed ?s" by simp
  have p: "parseHeaders (''X-Test: 1'' @ [CR, LF, CR, LF])
      = Inr [Ent \<lparr>key = ''x-test'', line = ''X-Test: 1''\<rparr>]" by code_simp
  show ?thesis
    using no_boundary_degradation [OF w h] w p by auto
qed

text \<open>
  C9 (the header block is never empty). \<open>parseHeaders\<close> returns at least one entry for
  every buffer, the empty buffer gives the single entry with empty key and empty line, and
  every completed stream emits a headers event with at least one entry; the stream with no
  input at all emits the entry with empty key and empty line.
\<close>

theorem header_block_never_empty:
  "(\<exists>es. parseHeaders hdrs = Inr (map Ent es) \<and> es \<noteq> [])
   \<and> parseHeaders [] = Inr [Ent \<lparr>key = [], line = []\<rparr>]
   \<and> (\<exists>s es bs. run chunks = Inr s \<and> es \<noteq> []
         \<and> emitted s = HeadersEvent (map Ent es) # map PushEvent bs)
   \<and> streamOutput [] = Inr [HeadersEvent [Ent \<lparr>key = [], line = []\<rparr>], PushEvent [CR, LF]]"
proof (intro conjI)
  show "\<exists>es. parseHeaders hdrs = Inr (map Ent es) \<and> es \<noteq> []"
    using headerBlock_entries [of hdrs] parseHeaders_headerBlock [of hdrs] by auto
  show "parseHeaders [] = Inr [Ent \<lparr>key = [], line = []\<rparr>]"
    by code_simp
  show "\<exists>s es bs. run chunks = Inr s \<and> es \<noteq> []
         \<and> emitted s = HeadersEvent (map Ent es) # map PushEvent bs"
  proof -
    obtain s raw bs where r: "run chunks = Inr s"
        "emitted s = HeadersEvent (headerBlock raw) # map PushEvent bs"
      using run_shape [of chunks] by blast
    obtain es where "headerBlock raw = map Ent es" "es \<noteq> []"
      using headerBlock_entries [of raw] by blast
    then show ?thesis using r by auto
  qed
  show "streamOutput [] = Inr [HeadersEvent [Ent \<lparr>key = [], line = []\<rparr>], PushEvent [CR, LF]]"
    by code_simp
qed

theorem header_block_never_empty_witness:
  "(\<exists>es. parseHeaders ''A: 1'' = Inr (map Ent es) \<and> es \<noteq> [])
   \<and> (\<exists>s es bs. run [''A: 1''] = Inr s \<and> es \<noteq> []
         \<and> emitted s = HeadersEvent (map Ent es) # map PushEvent bs)"
  using header_block_never_empty [of "''A: 1''" "[''A: 1'']"] by blast

section \<open>Properties of the header parser\<close>

lemma makeEntry_no_colon:
  assumes "CHR '':'' \<notin> set l"
  shows "key (makeEntry l) = []"
proof -
  have "indexOf l (CHR '':'') = - 1" using assms by (simp add: indexOf_def)
  then have "substr l 0 (indexOf l (CHR '':'')) = []" by (simp add: substr_def)
  then show ?thesis
    by (simp add: makeEntry_def normalizeHeader_def toLowerCase_def trim_def)
qed

lemma foldInto_first:
  "foldInto cur ls
     = (cur @ concat (map ((#) LF) (takeWhile isContinuation ls)))
       # unfoldLines (dropWhile isContinuation ls)"
proof (induction ls arbitrary: cur)
  case Nil
  show ?case by (simp add: unfoldLines_def)
next
  case (Cons l ls)
  show ?case
  proof (cases "isContinuation l")
    case True
    then show ?thesis using Cons [of "cur @ [LF] @ l"] by simp
  next
    case False
    then show ?thesis by (simp add: unfoldLines_def)
  qed
qed

lemma length_foldInto:
  "length (foldInto cur ls) = Suc (length (filter (\<lambda>x. \<not> isContinuation x) ls))"
  by (induction ls arbitrary: cur) simp_all

lemma join_foldInto:
  "concat (map ((#) LF) (foldInto cur ls)) = LF # cur @ concat (map ((#) LF) ls)"
  by (induction ls arbitrary: cur) simp_all

lemma join_unfoldLines:
  "concat (map ((#) LF) (unfoldLines ls)) = concat (map ((#) LF) ls)"
  by (cases ls) (simp_all add: unfoldLines_def join_foldInto)

text \<open>
  C7 (the parser is total; a line without a colon). \<open>parseHeaders\<close> returns a header
  block for every buffer (no TypeError of the loop is reachable), with one entry for each
  unfolded line, whose text is the entry's \<open>line\<close>; an entry whose line holds no colon
  has the empty key. The input \<open>X-Broken\<close>, blank line, \<open>BODY\<close> gives the single entry
  with empty key and line \<open>X-Broken\<close>, and the body \<open>BODY\<close>.
\<close>

theorem parseHeaders_total_and_no_colon:
  "(\<exists>es. parseHeaders hdrs = Inr (map Ent es)
        \<and> map line es = unfoldLines (splitLines (stripTrailingBreaks (toString hdrs)))
        \<and> (\<forall>e \<in> set es. CHR '':'' \<notin> set (line e) \<longrightarrow> key e = []))
   \<and> streamOutput [''X-Broken'' @ [CR, LF, CR, LF] @ ''BODY'']
       = Inr [HeadersEvent [Ent \<lparr>key = [], line = ''X-Broken''\<rparr>], PushEvent ''BODY'']"
proof
  let ?ls = "unfoldLines (splitLines (stripTrailingBreaks (toString hdrs)))"
  have "parseHeaders hdrs = Inr (map Ent (map makeEntry ?ls))"
    by (simp add: parseHeaders_headerBlock headerBlock_def)
  moreover have "map line (map makeEntry ?ls) = ?ls"
    by (simp add: makeEntry_def comp_def)
  moreover have "\<forall>e \<in> set (map makeEntry ?ls). CHR '':'' \<notin> set (line e) \<longrightarrow> key e = []"
  proof
    fix e assume "e \<in> set (map makeEntry ?ls)"
    then obtain l where e: "e = makeEntry l" by auto
    have "line (makeEntry l) = l" by (simp add: makeEntry_def)
    then show "CHR '':'' \<notin> set (line e) \<longrightarrow> key e = []"
      using makeEntry_no_colon [of l] e by simp
  qed
  ultimately show "\<exists>es. parseHeaders hdrs = Inr (map Ent es)
        \<and> map line es = ?ls
        \<and> (\<forall>e \<in> set es. CHR '':'' \<notin> set (line e) \<longrightarrow> key e = [])"
    by blast
next
  show "streamOutput [''X-Broken'' @ [CR, LF, CR, LF] @ ''BODY'']
       = Inr [HeadersEvent [Ent \<lparr>key = [], line = ''X-Broken''\<rparr>], PushEvent ''BODY'']"
    by code_simp
qed

theorem parseHeaders_total_and_no_colon_witness:
  "\<exists>e. parseHeaders ''X-Broken'' = Inr [Ent e] \<and> line e = ''X-Broken'' \<and> key e = []"
proof -
  have ls: "unfoldLines (splitLines (stripTrailingBreaks (toString ''X-Broken''))) = [''X-Broken'']"
    by code_simp
  have "\<exists>es. parseHeaders ''X-Broken'' = Inr (map Ent es)
      \<and> map line es = [''X-Broken'']
      \<and> (\<forall>e \<in> set es. CHR '':'' \<notin> set (line e) \<longrightarrow> key e = [])"
    using parseHeaders_total_and_no_colon [of "''X-Broken''"] unfolding ls by (rule conjunct1)
  then obtain es where es: "parseHeaders ''X-Broken'' = Inr (map Ent es)"
      "map line es = [''X-Broken'']"
      "\<forall>e \<in> set es. CHR '':'' \<notin> set (line e) \<longrightarrow> key e = []"
    by (elim exE conjE)
  from es(2) obtain e where e: "es = [e]" "line e = ''X-Broken''" by auto
  have "CHR '':'' \<notin> set ''X-Broken''" by simp
  then have "key e = []" using es(3) e by simp
  then show ?thesis using es(1) e by auto
qed

text \<open>
  C10 (a continuation line in first position). When the first line of the header text
  starts with a space or a tab, it is not merged or removed: the first entry's line is
  that line (followed by the continuation lines right after it, each after a newline),
  its key is computed from its text before the first colon as for every entry, and the
  other entries are one for each later line that is not a continuation.
\<close>

theorem leading_continuation_kept:
  assumes "splitLines (stripTrailingBreaks (toString hdrs)) = l # ls" and "isContinuation l"
  shows "(\<exists>e es. parseHeaders hdrs = Inr (Ent e # map Ent es)
            \<and> line e = l @ concat (map ((#) LF) (takeWhile isContinuation ls))
            \<and> key e = normalizeHeader (substr (line e) 0 (indexOf (line e) (CHR '':'')))
            \<and> length es = length (filter (\<lambda>x. \<not> isContinuation x) ls))
         \<and> parseHeaders ('' X: 1'' @ [CR, LF] @ ''B: 2'')
             = Inr [Ent \<lparr>key = ''x'', line = '' X: 1''\<rparr>, Ent \<lparr>key = ''b'', line = ''B: 2''\<rparr>]"
proof
  let ?first = "l @ concat (map ((#) LF) (takeWhile isContinuation ls))"
  let ?rest = "unfoldLines (dropWhile isContinuation ls)"
  have u: "unfoldLines (l # ls) = ?first # ?rest"
    using foldInto_first [of l ls] by (simp add: unfoldLines_def)
  have "parseHeaders hdrs = Inr (Ent (makeEntry ?first) # map Ent (map makeEntry ?rest))"
    using assms(1) u by (simp add: parseHeaders_headerBlock headerBlock_def)
  moreover have "line (makeEntry ?first) = ?first"
    by (simp add: makeEntry_def)
  moreover have "key (makeEntry ?first)
      = normalizeHeader (substr (line (makeEntry ?first)) 0
          (indexOf (line (makeEntry ?first)) (CHR '':'')))"
    by (simp add: makeEntry_def)
  moreover have "length (map makeEntry ?rest) = length (filter (\<lambda>x. \<not> isContinuation x) ls)"
    using length_foldInto [of l ls] u by (simp add: unfoldLines_def)
  ultimately show "\<exists>e es. parseHeaders hdrs = Inr (Ent e # map Ent es)
            \<and> line e = ?first
            \<and> key e = normalizeHeader (substr (line e) 0 (indexOf (line e) (CHR '':'')))
            \<and> length es = length (filter (\<lambda>x. \<not> isContinuation x) ls)"
    by blast
next
  show "parseHeaders ('' X: 1'' @ [CR, LF] @ ''B: 2'')
             = Inr [Ent \<lparr>key = ''x'', line = '' X: 1''\<rparr>, Ent \<lparr>key = ''b'', line = ''B: 2''\<rparr>]"
    by code_simp
qed

theorem leading_continuation_kept_witness:
  "splitLines (stripTrailingBreaks (toString ('' X: 1'' @ [CR, LF] @ ''B: 2''))) = ['' X: 1'', ''B: 2'']
   \<and> isContinuation '' X: 1''
   \<and> (\<exists>e es. parseHeaders ('' X: 1'' @ [CR, LF] @ ''B: 2'') = Inr (Ent e # map Ent es)
         \<and> line e = '' X: 1'' \<and> length es = 1)"
proof -
  have a: "splitLines (stripTrailingBreaks (toString ('' X: 1'' @ [CR, LF] @ ''B: 2'')))
      = '' X: 1'' # [''B: 2'']"
    by code_simp
  have b: "isContinuation '' X: 1''" by code_simp
  have c: "\<not> isContinuation ''B: 2''" by code_simp
  have "\<exists>e es. parseHeaders ('' X: 1'' @ [CR, LF] @ ''B: 2'') = Inr (Ent e # map Ent es)
      \<and> line e = '' X: 1'' @ concat (map ((#) LF) (takeWhile isContinuation [''B: 2'']))
      \<and> key e = normalizeHeader (substr (line e) 0 (indexOf (line e) (CHR '':'')))
      \<and> length es = length (filter (\<lambda>x. \<not> isContinuation x) [''B: 2''])"
    using leading_continuation_kept [OF a b] by (rule conjunct1)
  then obtain e es where e:
      "parseHeaders ('' X: 1'' @ [CR, LF] @ ''B: 2'') = Inr (Ent e # map Ent es)"
      "line e = '' X: 1'' @ concat (map ((#) LF) (takeWhile isContinuation [''B: 2'']))"
      "length es = length (filter (\<lambda>x. \<not> isContinuation x) [''B: 2''])"
    by (elim exE conjE)
  have "line e = '' X: 1''" using e(2) c by simp
  moreover have "length es = 1" using e(3) c by simp
  ultimately show ?thesis
    using a b e(1) by blast
qed

text \<open>
  C4 (folding), as stated: the input \<open>Subject: Hello\<close> CR LF \<open> World\<close>, blank line,
  \<open>BODY\<close> yields the line \<open>Subject: Hello\<close> LF \<open>World\<close>. The code yields another
  line: the continuation keeps its leading space.
\<close>

theorem folding_counterexample:
  "streamOutput [''Subject: Hello'' @ [CR, LF] @ '' World'' @ [CR, LF, CR, LF] @ ''BODY'']
     \<noteq> Inr [HeadersEvent [Ent \<lparr>key = ''subject'', line = ''Subject: Hello'' @ [LF] @ ''World''\<rparr>],
            PushEvent ''BODY'']"
  by code_simp

text \<open>
  C4 (folding), amended: the same input yields the entry with key \<open>subject\<close> and line
  \<open>Subject: Hello\<close> LF \<open> World\<close>, and the body \<open>BODY\<close>. A continuation line (first
  character space or tab, not the first line) is appended whole, with its leading space or
  tab, to the line before it after a single newline; a line that is no continuation
  starts the next entry; the entries are in the order of the lines, and joining their
  lines with newlines gives back the lines joined with newlines.
\<close>

theorem folding_keeps_continuation_whole:
  "streamOutput [''Subject: Hello'' @ [CR, LF] @ '' World'' @ [CR, LF, CR, LF] @ ''BODY'']
     = Inr [HeadersEvent [Ent \<lparr>key = ''subject'', line = ''Subject: Hello'' @ [LF] @ '' World''\<rparr>],
            PushEvent ''BODY'']
   \<and> (\<exists>es. parseHeaders hdrs = Inr (map Ent es)
         \<and> map line es = unfoldLines (splitLines (stripTrailingBreaks (toString hdrs)))
         \<and> concat (map ((#) LF) (map line es))
             = concat (map ((#) LF) (splitLines (stripTrailingBreaks (toString hdrs)))))
   \<and> (isContinuation c \<longrightarrow> unfoldLines (pre @ [x, c]) = unfoldLines (pre @ [x @ [LF] @ c]))
   \<and> (\<not> isContinuation c \<longrightarrow> unfoldLines (pre @ [x, c]) = unfoldLines (pre @ [x]) @ [c])"
proof (intro conjI)
  show "streamOutput [''Subject: Hello'' @ [CR, LF] @ '' World'' @ [CR, LF, CR, LF] @ ''BODY'']
     = Inr [HeadersEvent [Ent \<lparr>key = ''subject'', line = ''Subject: Hello'' @ [LF] @ '' World''\<rparr>],
            PushEvent ''BODY'']"
    by code_simp
  let ?ls = "splitLines (stripTrailingBreaks (toString hdrs))"
  have "parseHeaders hdrs = Inr (map Ent (map makeEntry (unfoldLines ?ls)))"
    by (simp add: parseHeaders_headerBlock headerBlock_def)
  moreover have "map line (map makeEntry (unfoldLines ?ls)) = unfoldLines ?ls"
    by (simp add: makeEntry_def comp_def)
  ultimately show "\<exists>es. parseHeaders hdrs = Inr (map Ent es)
         \<and> map line es = unfoldLines ?ls
         \<and> concat (map ((#) LF) (map line es)) = concat (map ((#) LF) ?ls)"
    using join_unfoldLines [of ?ls] by (metis (no_types, lifting))
  show "isContinuation c \<longrightarrow> unfoldLines (pre @ [x, c]) = unfoldLines (pre @ [x @ [LF] @ c])"
    using unfoldLines_snoc_cont by blast
  show "\<not> isContinuation c \<longrightarrow> unfoldLines (pre @ [x, c]) = unfoldLines (pre @ [x]) @ [c]"
    using unfoldLines_snoc_plain by blast
qed

theorem folding_keeps_continuation_whole_witness:
  "isContinuation '' World''
   \<and> unfoldLines [''Subject: Hello'', '' World''] = [''Subject: Hello'' @ [LF] @ '' World'']
   \<and> \<not> isContinuation ''B: 2''
   \<and> unfoldLines [''A: 1'', ''B: 2''] = [''A: 1'', ''B: 2'']
   \<and> (\<exists>es. parseHeaders (''Subject: Hello'' @ [CR, LF] @ '' World'') = Inr (map Ent es)
         \<and> map line es = [''Subject: Hello'' @ [LF] @ '' World''])"
proof -
  have a: "isContinuation '' World''" by code_simp
  have b: "\<not> isContinuation ''B: 2''" by code_simp
  have u1: "unfoldLines ([] @ [''Subject: Hello'' @ [LF] @ '' World''])
      = [''Subject: Hello'' @ [LF] @ '' World'']" by code_simp
  have u2: "unfoldLines ([] @ [''A: 1'']) = [''A: 1'']" by code_simp
  have s: "unfoldLines (splitLines (stripTrailingBreaks
      (toString (''Subject: Hello'' @ [CR, LF] @ '' World''))))
      = [''Subject: Hello'' @ [LF] @ '' World'']" by code_simp
  have t1: "unfoldLines ([] @ [''Subject: Hello'', '' World''])
      = unfoldLines ([] @ [''Subject: Hello'' @ [LF] @ '' World''])"
    using folding_keeps_continuation_whole [of "''Subject: Hello'' @ [CR, LF] @ '' World''"
      "'' World''" "[]" "''Subject: Hello''"] a by blast
  have t2: "unfoldLines ([] @ [''A: 1'', ''B: 2'']) = unfoldLines ([] @ [''A: 1'']) @ [''B: 2'']"
    using folding_keeps_continuation_whole [of "''Subject: Hello'' @ [CR, LF] @ '' World''"
      "''B: 2''" "[]" "''A: 1''"] b by blast
  have t3: "\<exists>es. parseHeaders (''Subject: Hello'' @ [CR, LF] @ '' World'') = Inr (map Ent es)
         \<and> map line es = unfoldLines (splitLines (stripTrailingBreaks
      (toString (''Subject: Hello'' @ [CR, LF] @ '' World''))))"
    using folding_keeps_continuation_whole [of "''Subject: Hello'' @ [CR, LF] @ '' World''"
      "'' World''" "[]" "''Subject: Hello''"] by blast
  show ?thesis
    using a b t1 t2 t3 unfolding u1 u2 s by simp
qed

section \<open>The boundary rule and the tail window\<close>

lemma slice_at_boundary:
  assumes "scanFrom lb data 0 = Some i" "length lb \<le> Suc i"
  shows "slice data 0 (int i - int (length lb) + 1) = take (Suc i - length lb) data
       \<and> slice data (int i - int (length lb) + 1) (int (length data)) = drop (Suc i - length lb) data
       \<and> lb @ take (Suc i - length lb) data = take (Suc i) (lb @ data)"
proof -
  have "i < length (lb @ data)" using assms(1) scan_Some [of lb data i] by simp
  then have le: "Suc i - length lb \<le> length data" by simp
  have pos: "int i - int (length lb) + 1 = int (Suc i - length lb)"
    using assms(2) by simp
  show ?thesis
    unfolding pos using slice_take [OF le] slice_drop [OF le] assms(2) by simp
qed

lemma checkHeaders_at_boundary:
  assumes acc: "accumulatingOn inp s" and found: "scanFrom (lastBytes s) data 0 = Some i"
  shows "\<exists>s'. checkHeaders data s = Inr (False, s') \<and> headersParsed s' \<and> 4 \<le> i
           \<and> rawHeaders s' = Some (inp @ take (i - 3) data)
           \<and> headerBytes s' = int (length inp) + (int i - 3)
           \<and> immediates s' = (if i - 2 < length data then [PushTask (drop (i - 3) data)] else [])"
proof -
  have lb: "lastBytes s = drop (length inp) (emptyWindow @ inp)"
    and clean: "scanFrom emptyWindow inp 0 = None"
    using acc by (auto simp: accumulatingOn_def)
  have w: "scanFrom (lastBytes s) data 0
      = map_option (\<lambda>m. m - length inp) (scanFrom emptyWindow (inp @ data) 0)"
    and late: "\<forall>m. scanFrom emptyWindow (inp @ data) 0 = Some m \<longrightarrow> length inp + 4 \<le> m"
    using window_scan [of emptyWindow inp data] clean lb by simp_all
  obtain m where m: "scanFrom emptyWindow (inp @ data) 0 = Some m" "i = m - length inp"
    using w found by (cases "scanFrom emptyWindow (inp @ data) 0") auto
  have ml: "length inp + 4 \<le> m" using late m(1) by blast
  obtain s' where s': "checkHeaders data s = Inr (False, s')" "headersParsed s'"
      "rawHeaders s' = Some (take (m - 3) (inp @ data))" "headerBytes s' = int (m - 3)"
      "immediates s' = (if m - 2 < length inp + length data
                        then [PushTask (drop (m - 3) (inp @ data))] else [])"
    using checkHeaders_boundary [OF acc m(1)] by blast
  have "take (m - 3) (inp @ data) = inp @ take (i - 3) data"
    using ml m(2) by (simp add: add.commute)
  moreover have "int (m - 3) = int (length inp) + (int i - 3)"
    using ml m(2) by simp
  moreover have "4 \<le> i" using ml m(2) by simp
  moreover have "drop (m - 3) (inp @ data) = drop (i - 3) data"
    using ml m(2) by (simp add: add.commute)
  moreover have "(m - 2 < length inp + length data) = (i - 2 < length data)"
    using ml m(2) by auto
  ultimately show ?thesis using s' by auto
qed

lemma mixed_line_ending: "blankLineEndsAt (x @ [LF, CR, LF] @ y) (length x + 2)"
  by (simp add: blankLineEndsAt_def nth_append)

text \<open>
  What holds of the boundary rule. Over the window followed by the chunk, the scan returns
  the leftmost position \<open>i\<close> that is a line feed preceded by a line feed, or by a line
  feed and a carriage return, and returns nothing exactly when there is no such position.
  \<open>headerPos = i - lblen + 1\<close> is an offset into the chunk: the slice before it is the
  chunk up to and including the line feed at \<open>i\<close>, and the slice from it on is the rest
  of the chunk. For a splitter that is accumulating, the raw headers are the input so far
  followed by the chunk's bytes before \<open>headerPos\<close>, and the rest of the chunk is queued
  as body only when it is at least two bytes long. The rule fires on LF CR LF, the mixed
  line ending.
\<close>

lemma boundary_scan_rule:
  "(scanFrom lb data 0 = Some i \<longleftrightarrow>
      i < length (lb @ data) \<and> blankLineEndsAt (lb @ data) i
      \<and> (\<forall>j<i. \<not> blankLineEndsAt (lb @ data) j))
   \<and> (scanFrom lb data 0 = None \<longleftrightarrow> (\<forall>j<length (lb @ data). \<not> blankLineEndsAt (lb @ data) j))
   \<and> (scanFrom lb data 0 = Some i \<and> length lb \<le> Suc i \<longrightarrow>
        slice data 0 (int i - int (length lb) + 1) = take (Suc i - length lb) data
        \<and> slice data (int i - int (length lb) + 1) (int (length data))
            = drop (Suc i - length lb) data
        \<and> lb @ take (Suc i - length lb) data = take (Suc i) (lb @ data))
   \<and> (accumulatingOn inp s \<and> scanFrom (lastBytes s) data 0 = Some i \<longrightarrow>
        (\<exists>s'. checkHeaders data s = Inr (False, s') \<and> headersParsed s' \<and> 4 \<le> i
           \<and> rawHeaders s' = Some (inp @ take (i - 3) data)
           \<and> headerBytes s' = int (length inp) + (int i - 3)
           \<and> immediates s'
               = (if i - 2 < length data then [PushTask (drop (i - 3) data)] else [])))
   \<and> blankLineEndsAt (x @ [LF, CR, LF] @ y) (length x + 2)
   \<and> scanFrom emptyWindow (''A: 1'' @ [LF, CR, LF] @ ''BODY'') 0 = Some 10"
proof (intro conjI)
  show "scanFrom lb data 0 = Some i \<longleftrightarrow>
      i < length (lb @ data) \<and> blankLineEndsAt (lb @ data) i
      \<and> (\<forall>j<i. \<not> blankLineEndsAt (lb @ data) j)"
    by (rule scan_Some)
  show "scanFrom lb data 0 = None \<longleftrightarrow> (\<forall>j<length (lb @ data). \<not> blankLineEndsAt (lb @ data) j)"
    by (rule scan_None)
  show "scanFrom lb data 0 = Some i \<and> length lb \<le> Suc i \<longrightarrow>
        slice data 0 (int i - int (length lb) + 1) = take (Suc i - length lb) data
        \<and> slice data (int i - int (length lb) + 1) (int (length data))
            = drop (Suc i - length lb) data
        \<and> lb @ take (Suc i - length lb) data = take (Suc i) (lb @ data)"
    using slice_at_boundary [of lb data i] by blast
  show "accumulatingOn inp s \<and> scanFrom (lastBytes s) data 0 = Some i \<longrightarrow>
        (\<exists>s'. checkHeaders data s = Inr (False, s') \<and> headersParsed s' \<and> 4 \<le> i
           \<and> rawHeaders s' = Some (inp @ take (i - 3) data)
           \<and> headerBytes s' = int (length inp) + (int i - 3)
           \<and> immediates s'
               = (if i - 2 < length data then [PushTask (drop (i - 3) data)] else []))"
    using checkHeaders_at_boundary [of inp s data i] by blast
  show "blankLineEndsAt (x @ [LF, CR, LF] @ y) (length x + 2)"
    by (rule mixed_line_ending)
  show "scanFrom emptyWindow (''A: 1'' @ [LF, CR, LF] @ ''BODY'') 0 = Some 10"
    by code_simp
qed

text \<open>
  C5 (boundary detection rule). The claim: the detector fires at the leftmost line feed
  that ends LF LF or LF CR LF, and \<open>headerPos\<close> is that position as an offset into the
  chunk, so that the bytes of the chunk before \<open>headerPos\<close> are header bytes and the
  bytes from \<open>headerPos\<close> onward are body bytes. The scan and the offset are as claimed
  (\<open>boundary_scan_rule\<close>), but the code does not treat a single byte from \<open>headerPos\<close>
  onward as body. For the chunk \<open>A: 1\<close> LF LF \<open>B\<close> the scan fires at position 9 of the
  window followed by the chunk, \<open>headerPos\<close> is 6, the slice before it is the raw headers
  and the slice from it on is the byte \<open>B\<close>; \<open>checkHeaders\<close> queues no push and counts no
  body byte, and the whole stream emits the headers event only. The byte is neither
  header nor body: the lost byte of C1.
\<close>

theorem byte_at_headerPos_neither_header_nor_body:
  "scanFrom (lastBytes newSplitter) (''A: 1'' @ [LF, LF] @ ''B'') 0 = Some 9
   \<and> int 9 - int (length (lastBytes newSplitter)) + 1 = 6
   \<and> slice (''A: 1'' @ [LF, LF] @ ''B'') 0 6 = ''A: 1'' @ [LF, LF]
   \<and> slice (''A: 1'' @ [LF, LF] @ ''B'') 6 (int (length (''A: 1'' @ [LF, LF] @ ''B''))) = ''B''
   \<and> checkHeaders (''A: 1'' @ [LF, LF] @ ''B'') newSplitter
       = Inr (False,
           \<lparr>lastBytes = emptyWindow, headersParsed = True, headerBytes = 6,
            headerChunks = None, rawHeaders = Some (''A: 1'' @ [LF, LF]),
            headers = Some [Ent \<lparr>key = ''a'', line = ''A: 1''\<rparr>], bodySize = 0,
            curLinePos = Some 0,
            emitted = [HeadersEvent [Ent \<lparr>key = ''a'', line = ''A: 1''\<rparr>]],
            immediates = []\<rparr>)
   \<and> streamOutput [''A: 1'' @ [LF, LF] @ ''B'']
       = Inr [HeadersEvent [Ent \<lparr>key = ''a'', line = ''A: 1''\<rparr>]]"
  by code_simp

text \<open>
  C8 (tail window update). When a chunk is checked while the splitter is accumulating and
  the scan of the window followed by the chunk finds no boundary, the whole chunk is
  appended to the header chunks and counted, and the window afterwards is the last four
  bytes of the old window followed by the chunk; for a chunk of at most four bytes these
  are the surviving older bytes, in order, followed by the chunk.
\<close>

theorem tail_window_update:
  assumes "\<not> headersParsed s" and "headerChunks s = Some cs" and "length (lastBytes s) = 4"
    and "scanFrom (lastBytes s) data 0 = None"
  shows "\<exists>s'. checkHeaders data s = Inr (False, s') \<and> \<not> headersParsed s'
           \<and> headerChunks s' = Some (cs @ [data])
           \<and> headerBytes s' = headerBytes s + int (length data)
           \<and> lastBytes s' = drop (length data) (lastBytes s @ data)
           \<and> length (lastBytes s') = 4
           \<and> (length data \<le> 4 \<longrightarrow> lastBytes s' = drop (length data) (lastBytes s) @ data)"
proof -
  let ?s' = "s\<lparr>curLinePos := Some 0, headerBytes := headerBytes s + int (length data),
      headerChunks := Some (cs @ [data]),
      lastBytes := updateLastBytes (lastBytes s) data\<rparr>"
  have ch: "checkHeaders data s = Inr (False, ?s')"
    using assms(1,2,4) by (simp add: checkHeaders_def Let_def)
  have lb: "lastBytes ?s' = drop (length data) (lastBytes s @ data)"
    using updateLastBytes_last4 [OF assms(3), of data] by simp
  have len: "length (drop (length data) (lastBytes s @ data)) = 4"
    using assms(3) by simp
  have short: "drop (length data) (lastBytes s @ data) = drop (length data) (lastBytes s) @ data"
    if "length data \<le> 4"
    using that assms(3) by simp
  show ?thesis
    using ch lb len short assms(1) by (intro exI [of _ ?s']) simp
qed

theorem tail_window_update_witness:
  "\<not> headersParsed \<lparr>lastBytes = ''abcd'', headersParsed = False, headerBytes = 4,
        headerChunks = Some [''abcd''], rawHeaders = None, headers = None, bodySize = 0,
        curLinePos = Some 0, emitted = [], immediates = []\<rparr>
   \<and> scanFrom ''abcd'' ''xy'' 0 = None
   \<and> (\<exists>s'. checkHeaders ''xy'' \<lparr>lastBytes = ''abcd'', headersParsed = False, headerBytes = 4,
        headerChunks = Some [''abcd''], rawHeaders = None, headers = None, bodySize = 0,
        curLinePos = Some 0, emitted = [], immediates = []\<rparr> = Inr (False, s')
        \<and> headerChunks s' = Some [''abcd'', ''xy''] \<and> headerBytes s' = 6
        \<and> lastBytes s' = ''cdxy'')"
proof -
  let ?s = "\<lparr>lastBytes = ''abcd'', headersParsed = False, headerBytes = 4,
        headerChunks = Some [''abcd''], rawHeaders = None, headers = None, bodySize = 0,
        curLinePos = Some 0, emitted = [], immediates = []\<rparr>"
  have a: "\<not> headersParsed ?s" by simp
  have b: "headerChunks ?s = Some [''abcd'']" by simp
  have c: "length (lastBytes ?s) = 4" by simp
  have sc: "scanFrom ''abcd'' ''xy'' 0 = None" by code_simp
  then have d: "scanFrom (lastBytes ?s) ''xy'' 0 = None" by simp
  show ?thesis
    using tail_window_update [OF a b c d] a sc by auto
qed

end
